theory Spec2Isabelle
  imports Main "HOL-Library.Word" "HOL-Library.Multiset"
begin

section \<open>Data model\<close>

text \<open>
  The routines of \<^verbatim>\<open>ecma-builtin-helpers-sort.c\<close> index the array with \<^verbatim>\<open>uint32_t\<close>:
  arithmetic on indices wraps around modulo \<open>2 ^ 32\<close>, and \<open>div\<close> on words is the unsigned
  division of C.
\<close>

type_synonym uint32 = "32 word"

text \<open>
  The value returned by the two routines: \<^verbatim>\<open>ECMA_VALUE_EMPTY\<close> or \<^verbatim>\<open>ECMA_VALUE_ERROR\<close>.
\<close>

datatype ecma_value = ECMA_VALUE_EMPTY | ECMA_VALUE_ERROR

text \<open>
  The value returned by the callback \<^verbatim>\<open>sort_cb\<close>: the error sentinel, or a number value.
  The source asserts \<^verbatim>\<open>ecma_is_value_number\<close> on every value that is not the error
  sentinel; the type has no third alternative, so that assertion holds by construction.
  The payload of a number value is read with \<^verbatim>\<open>ecma_get_number_from_value\<close> and only ever
  tested with \<^verbatim>\<open>< ECMA_NUMBER_ZERO\<close> and \<^verbatim>\<open><= ECMA_NUMBER_ZERO\<close>; it is modelled as an integer.
  A floating-point NaN fails both tests, as a positive number does, and is represented by one.
\<close>

datatype compare_value = COMPARE_ERROR | COMPARE_NUMBER int

text \<open>
  What stops the C program instead of letting it return: an array access outside the
  allocated block (undefined behaviour), or a failing \<^verbatim>\<open>JERRY_ASSERT\<close>.
\<close>

datatype fault = OutOfBounds | AssertionFailed

text \<open>
  Observable events of a run, in program order: array reads and writes with their index,
  invocations of \<^verbatim>\<open>sort_cb\<close> with both operands and the value returned, and calls of
  \<^verbatim>\<open>ecma_free_value\<close> on a number value.
\<close>

datatype 'v event =
    Read uint32
  | Write uint32 'v
  | Invoke 'v 'v compare_value
  | Release int

text \<open>
  The state the routines work on: the block \<^verbatim>\<open>array_p\<close> points to, the state of the
  surrounding runtime (all the callback can read and change; by section 5 of the
  specification it does not touch the array), and the events so far. The events are a log
  kept by the model, which the C program does not have; no routine reads it.
\<close>

record ('v, 'c) machine =
  array_p :: "'v list"
  runtime :: 'c
  trace :: "'v event list"

text \<open>
  The callback type \<^verbatim>\<open>ecma_builtin_helper_sort_compare_fn_t\<close>: the two values to compare and
  \<^verbatim>\<open>compare_func\<close>, all of type \<^verbatim>\<open>ecma_value_t\<close>; here it takes the state of the runtime as
  well and returns the new one. The callback is a parameter of both routines.
\<close>

type_synonym ('v, 'c) sort_compare_fn = "'v \<Rightarrow> 'v \<Rightarrow> 'v \<Rightarrow> 'c \<Rightarrow> compare_value \<times> 'c"

section \<open>Primitive operations\<close>

definition array_get :: "uint32 \<Rightarrow> ('v, 'c) machine \<Rightarrow> fault + ('v \<times> ('v, 'c) machine)" where
  "array_get i st =
     (if unat i < length (array_p st)
      then Inr (array_p st ! unat i, st\<lparr>trace := trace st @ [Read i]\<rparr>)
      else Inl OutOfBounds)"

definition array_set :: "uint32 \<Rightarrow> 'v \<Rightarrow> ('v, 'c) machine \<Rightarrow> fault + ('v, 'c) machine" where
  "array_set i v st =
     (if unat i < length (array_p st)
      then Inr (st\<lparr>array_p := (array_p st)[unat i := v], trace := trace st @ [Write i v]\<rparr>)
      else Inl OutOfBounds)"

definition call_sort_cb ::
  "('v, 'c) sort_compare_fn \<Rightarrow> 'v \<Rightarrow> 'v \<Rightarrow> 'v \<Rightarrow> ('v, 'c) machine
     \<Rightarrow> compare_value \<times> ('v, 'c) machine" where
  "call_sort_cb sort_cb a b compare_func st =
     (case sort_cb a b compare_func (runtime st) of
        (r, c) \<Rightarrow> (r, st\<lparr>runtime := c, trace := trace st @ [Invoke a b r]\<rparr>))"

definition ecma_free_value :: "int \<Rightarrow> ('v, 'c) machine \<Rightarrow> ('v, 'c) machine" where
  "ecma_free_value n st = st\<lparr>trace := trace st @ [Release n]\<rparr>"

section \<open>\<^verbatim>\<open>ecma_builtin_helper_array_to_heap\<close>\<close>

text \<open>
  One pass through the body of the \<^verbatim>\<open>while\<close> loop either leaves the loop by
  \<^verbatim>\<open>break\<close>, with the current \<^verbatim>\<open>ret_value\<close> and \<^verbatim>\<open>child\<close>, or reaches the end of the body
  with a new \<^verbatim>\<open>child\<close>.
\<close>

datatype ('v, 'c) iteration =
    Break ecma_value uint32 "('v, 'c) machine"
  | Continue uint32 "('v, 'c) machine"

text \<open>Lines 41 to 61: compare the two child nodes and use the one that is greater.\<close>

definition compare_children ::
  "('v, 'c) sort_compare_fn \<Rightarrow> 'v \<Rightarrow> uint32 \<Rightarrow> uint32 \<Rightarrow> ('v, 'c) machine
     \<Rightarrow> fault + ('v, 'c) iteration" where
  "compare_children sort_cb compare_func right child st =
     (if child < right then
        (case array_get child st of
           Inl e \<Rightarrow> Inl e
         | Inr (a, st1) \<Rightarrow>
        (case array_get (child + 1) st1 of
           Inl e \<Rightarrow> Inl e
         | Inr (b, st2) \<Rightarrow>
        (case call_sort_cb sort_cb a b compare_func st2 of
           (COMPARE_ERROR, st3) \<Rightarrow> Inr (Break ECMA_VALUE_ERROR child st3)
         | (COMPARE_NUMBER n, st3) \<Rightarrow>
             Inr (Continue (if n < 0 then child + 1 else child) (ecma_free_value n st3)))))
      else Inr (Continue child st))"

text \<open>
  Lines 63 to 91: compare the current child node with \<^verbatim>\<open>swap\<close> (the tree top); leave
  the loop when the child is not greater, otherwise shift the child up in the hierarchy.
\<close>

definition compare_with_swap ::
  "('v, 'c) sort_compare_fn \<Rightarrow> 'v \<Rightarrow> uint32 \<Rightarrow> 'v \<Rightarrow> uint32 \<Rightarrow> ecma_value \<Rightarrow> ('v, 'c) machine
     \<Rightarrow> fault + ('v, 'c) iteration" where
  "compare_with_swap sort_cb compare_func right swap child ret_value st =
     (if \<not> child \<le> right then Inl AssertionFailed
      else
       (case array_get child st of
          Inl e \<Rightarrow> Inl e
        | Inr (a, st1) \<Rightarrow>
       (case call_sort_cb sort_cb a swap compare_func st1 of
          (COMPARE_ERROR, st2) \<Rightarrow> Inr (Break ECMA_VALUE_ERROR child st2)
        | (COMPARE_NUMBER n, st2) \<Rightarrow>
            if n \<le> 0 then Inr (Break ret_value child (ecma_free_value n st2))
            else
              let parent = (child - 1) div 2 in
              if \<not> parent \<le> right then Inl AssertionFailed
              else
           (case array_get child st2 of
              Inl e \<Rightarrow> Inl e
            | Inr (x, st3) \<Rightarrow>
           (case array_set parent x st3 of
              Inl e \<Rightarrow> Inl e
            | Inr st4 \<Rightarrow> Inr (Continue (child * 2 + 1) (ecma_free_value n st4)))))))"

text \<open>Lines 41 to 91: the whole loop body.\<close>

definition sift_iteration ::
  "('v, 'c) sort_compare_fn \<Rightarrow> 'v \<Rightarrow> uint32 \<Rightarrow> 'v \<Rightarrow> uint32 \<Rightarrow> ecma_value \<Rightarrow> ('v, 'c) machine
     \<Rightarrow> fault + ('v, 'c) iteration" where
  "sift_iteration sort_cb compare_func right swap child ret_value st =
     (case compare_children sort_cb compare_func right child st of
        Inl e \<Rightarrow> Inl e
      | Inr (Break r c s) \<Rightarrow> Inr (Break r c s)
      | Inr (Continue child1 st1) \<Rightarrow>
          compare_with_swap sort_cb compare_func right swap child1 ret_value st1)"

text \<open>
  The \<^verbatim>\<open>while (child <= right)\<close> loop. With 32-bit wrap-around \<^verbatim>\<open>child * 2 + 1\<close> need not
  grow, so the loop is a partial function: \<open>None\<close> is a run that never leaves the loop.
  On exit the loop hands over \<^verbatim>\<open>ret_value\<close>, \<^verbatim>\<open>child\<close> and the state.
\<close>

partial_function (option) sift_loop ::
  "('v, 'c) sort_compare_fn \<Rightarrow> 'v \<Rightarrow> uint32 \<Rightarrow> 'v \<Rightarrow> uint32 \<Rightarrow> ecma_value \<Rightarrow> ('v, 'c) machine
     \<Rightarrow> (fault + (ecma_value \<times> uint32 \<times> ('v, 'c) machine)) option" where
  "sift_loop sort_cb compare_func right swap child ret_value st =
     (if child \<le> right then
        (case sift_iteration sort_cb compare_func right swap child ret_value st of
           Inl e \<Rightarrow> Some (Inl e)
         | Inr (Break r c s) \<Rightarrow> Some (Inr (r, c, s))
         | Inr (Continue c s) \<Rightarrow> sift_loop sort_cb compare_func right swap c ret_value s)
      else Some (Inr (ret_value, child, st)))"

declare sift_loop.simps [code]

text \<open>
  The function itself (lines 26 to 103): hold \<^verbatim>\<open>array_p[index]\<close> aside as \<^verbatim>\<open>swap\<close>, run
  the loop, and store \<^verbatim>\<open>swap\<close> in the parent of the final \<^verbatim>\<open>child\<close>.
\<close>

definition ecma_builtin_helper_array_to_heap ::
  "uint32 \<Rightarrow> uint32 \<Rightarrow> 'v \<Rightarrow> ('v, 'c) sort_compare_fn \<Rightarrow> ('v, 'c) machine
     \<Rightarrow> (fault + (ecma_value \<times> ('v, 'c) machine)) option" where
  "ecma_builtin_helper_array_to_heap index right compare_func sort_cb st =
     (let child = index * 2 + 1 in
      case array_get index st of
        Inl e \<Rightarrow> Some (Inl e)
      | Inr (swap, st1) \<Rightarrow>
     (case sift_loop sort_cb compare_func right swap child ECMA_VALUE_EMPTY st1 of
        None \<Rightarrow> None
      | Some (Inl e) \<Rightarrow> Some (Inl e)
      | Some (Inr (ret_value, child', st2)) \<Rightarrow>
          let parent = (child' - 1) div 2 in
          if \<not> parent \<le> right then Some (Inl AssertionFailed)
          else
         (case array_set parent swap st2 of
            Inl e \<Rightarrow> Some (Inl e)
          | Inr st3 \<Rightarrow> Some (Inr (ret_value, st3)))))"

section \<open>\<^verbatim>\<open>ecma_builtin_helper_array_heap_sort_helper\<close>\<close>

text \<open>
  Both \<^verbatim>\<open>for\<close> loops count \<^verbatim>\<open>i\<close> down to zero. A loop yields \<open>Some value\<close> when its body
  executed \<^verbatim>\<open>return value\<close>, and \<open>None\<close> when it ran to its end.
\<close>

text \<open>Lines 118 to 126: construct the ordered binary tree.\<close>

function build_loop ::
  "uint32 \<Rightarrow> 'v \<Rightarrow> ('v, 'c) sort_compare_fn \<Rightarrow> uint32 \<Rightarrow> ('v, 'c) machine
     \<Rightarrow> (fault + (ecma_value option \<times> ('v, 'c) machine)) option" where
  "build_loop right compare_func sort_cb i st =
     (if 0 < i then
        (case ecma_builtin_helper_array_to_heap (i - 1) right compare_func sort_cb st of
           None \<Rightarrow> None
         | Some (Inl e) \<Rightarrow> Some (Inl e)
         | Some (Inr (value, st1)) \<Rightarrow>
             if value = ECMA_VALUE_ERROR then Some (Inr (Some value, st1))
             else build_loop right compare_func sort_cb (i - 1) st1)
      else Some (Inr (None, st)))"
  by pat_completeness auto
termination
  by (relation "measure (\<lambda>(right, compare_func, sort_cb, i, st). unat i)")
     (auto simp: unat_minus_one word_greater_zero_iff unat_gt_0)

declare build_loop.simps [simp del]

text \<open>Lines 129 to 146: move the top to the end and rebuild the tree from the rest.\<close>

function sort_loop ::
  "'v \<Rightarrow> ('v, 'c) sort_compare_fn \<Rightarrow> uint32 \<Rightarrow> ('v, 'c) machine
     \<Rightarrow> (fault + (ecma_value option \<times> ('v, 'c) machine)) option" where
  "sort_loop compare_func sort_cb i st =
     (if 0 < i then
        (case array_get 0 st of
           Inl e \<Rightarrow> Some (Inl e)
         | Inr (swap, st1) \<Rightarrow>
        (case array_get i st1 of
           Inl e \<Rightarrow> Some (Inl e)
         | Inr (x, st2) \<Rightarrow>
        (case array_set 0 x st2 of
           Inl e \<Rightarrow> Some (Inl e)
         | Inr st3 \<Rightarrow>
        (case array_set i swap st3 of
           Inl e \<Rightarrow> Some (Inl e)
         | Inr st4 \<Rightarrow>
        (case ecma_builtin_helper_array_to_heap 0 (i - 1) compare_func sort_cb st4 of
           None \<Rightarrow> None
         | Some (Inl e) \<Rightarrow> Some (Inl e)
         | Some (Inr (value, st5)) \<Rightarrow>
             if value = ECMA_VALUE_ERROR then Some (Inr (Some value, st5))
             else sort_loop compare_func sort_cb (i - 1) st5)))))
      else Some (Inr (None, st)))"
  by pat_completeness auto
termination
  by (relation "measure (\<lambda>(compare_func, sort_cb, i, st). unat i)")
     (auto simp: unat_minus_one word_greater_zero_iff unat_gt_0)

declare sort_loop.simps [simp del]

text \<open>
  The function itself (lines 111 to 149): the first phase from \<^verbatim>\<open>(right / 2) + 1\<close>, then the
  second from \<^verbatim>\<open>right\<close>; a \<^verbatim>\<open>return value\<close> inside a loop ends the function, and after both
  loops it returns \<^verbatim>\<open>ECMA_VALUE_EMPTY\<close>.
\<close>

definition ecma_builtin_helper_array_heap_sort_helper ::
  "uint32 \<Rightarrow> 'v \<Rightarrow> ('v, 'c) sort_compare_fn \<Rightarrow> ('v, 'c) machine
     \<Rightarrow> (fault + (ecma_value \<times> ('v, 'c) machine)) option" where
  "ecma_builtin_helper_array_heap_sort_helper right compare_func sort_cb st =
     (case build_loop right compare_func sort_cb (right div 2 + 1) st of
        None \<Rightarrow> None
      | Some (Inl e) \<Rightarrow> Some (Inl e)
      | Some (Inr (Some value, st1)) \<Rightarrow> Some (Inr (value, st1))
      | Some (Inr (None, st1)) \<Rightarrow>
     (case sort_loop compare_func sort_cb right st1 of
        None \<Rightarrow> None
      | Some (Inl e) \<Rightarrow> Some (Inl e)
      | Some (Inr (Some value, st2)) \<Rightarrow> Some (Inr (value, st2))
      | Some (Inr (None, st2)) \<Rightarrow> Some (Inr (ECMA_VALUE_EMPTY, st2))))"

section \<open>Runs that have not returned\<close>

text \<open>
  A run that never leaves the \<^verbatim>\<open>while\<close> loop has no result, and the functions above say
  nothing on what it does. The functions of this section follow the same lines of the source,
  but let every call of the sift-down routine test the condition of its loop at most \<open>n\<close>
  times: a call that needs more is \<open>Running\<close>, in the state that it has reached then, and the
  routine that made the call is \<open>Running\<close> in that state as well. A run that ended within the
  bound is \<open>Done\<close>, with the result of the functions above.
\<close>

datatype ('r, 'v, 'c) progress =
    Running "('v, 'c) machine"
  | Done 'r

text \<open>
  The state in which a run is observed: the state it has reached while running, or the state
  in which it has returned; a run that ended in a fault has none.
\<close>

fun observed :: "(fault + 'a \<times> ('v, 'c) machine, 'v, 'c) progress \<Rightarrow> ('v, 'c) machine option" where
  "observed (Running s) = Some s"
| "observed (Done (Inl e)) = None"
| "observed (Done (Inr (x, s))) = Some s"

text \<open>The \<^verbatim>\<open>while (child <= right)\<close> loop, for at most \<open>n\<close> tests of its condition.\<close>

fun sift_loop_upto ::
  "nat \<Rightarrow> ('v, 'c) sort_compare_fn \<Rightarrow> 'v \<Rightarrow> uint32 \<Rightarrow> 'v \<Rightarrow> uint32 \<Rightarrow> ecma_value \<Rightarrow> ('v, 'c) machine
     \<Rightarrow> (fault + (ecma_value \<times> uint32 \<times> ('v, 'c) machine), 'v, 'c) progress" where
  "sift_loop_upto 0 sort_cb compare_func right swap child ret_value st = Running st"
| "sift_loop_upto (Suc n) sort_cb compare_func right swap child ret_value st =
     (if child \<le> right then
        (case sift_iteration sort_cb compare_func right swap child ret_value st of
           Inl e \<Rightarrow> Done (Inl e)
         | Inr (Break r c s) \<Rightarrow> Done (Inr (r, c, s))
         | Inr (Continue c s) \<Rightarrow> sift_loop_upto n sort_cb compare_func right swap c ret_value s)
      else Done (Inr (ret_value, child, st)))"

text \<open>Lines 26 to 103.\<close>

definition array_to_heap_upto ::
  "nat \<Rightarrow> uint32 \<Rightarrow> uint32 \<Rightarrow> 'v \<Rightarrow> ('v, 'c) sort_compare_fn \<Rightarrow> ('v, 'c) machine
     \<Rightarrow> (fault + (ecma_value \<times> ('v, 'c) machine), 'v, 'c) progress" where
  "array_to_heap_upto n index right compare_func sort_cb st =
     (let child = index * 2 + 1 in
      case array_get index st of
        Inl e \<Rightarrow> Done (Inl e)
      | Inr (swap, st1) \<Rightarrow>
     (case sift_loop_upto n sort_cb compare_func right swap child ECMA_VALUE_EMPTY st1 of
        Running s \<Rightarrow> Running s
      | Done (Inl e) \<Rightarrow> Done (Inl e)
      | Done (Inr (ret_value, child', st2)) \<Rightarrow>
          let parent = (child' - 1) div 2 in
          if \<not> parent \<le> right then Done (Inl AssertionFailed)
          else
         (case array_set parent swap st2 of
            Inl e \<Rightarrow> Done (Inl e)
          | Inr st3 \<Rightarrow> Done (Inr (ret_value, st3)))))"

text \<open>Lines 118 to 126.\<close>

function build_loop_upto ::
  "nat \<Rightarrow> uint32 \<Rightarrow> 'v \<Rightarrow> ('v, 'c) sort_compare_fn \<Rightarrow> uint32 \<Rightarrow> ('v, 'c) machine
     \<Rightarrow> (fault + (ecma_value option \<times> ('v, 'c) machine), 'v, 'c) progress" where
  "build_loop_upto n right compare_func sort_cb i st =
     (if 0 < i then
        (case array_to_heap_upto n (i - 1) right compare_func sort_cb st of
           Running s \<Rightarrow> Running s
         | Done (Inl e) \<Rightarrow> Done (Inl e)
         | Done (Inr (value, st1)) \<Rightarrow>
             if value = ECMA_VALUE_ERROR then Done (Inr (Some value, st1))
             else build_loop_upto n right compare_func sort_cb (i - 1) st1)
      else Done (Inr (None, st)))"
  by pat_completeness auto
termination
  by (relation "measure (\<lambda>(n, right, compare_func, sort_cb, i, st). unat i)")
     (auto simp: unat_minus_one word_greater_zero_iff unat_gt_0)

declare build_loop_upto.simps [simp del]

text \<open>Lines 129 to 146.\<close>

function sort_loop_upto ::
  "nat \<Rightarrow> 'v \<Rightarrow> ('v, 'c) sort_compare_fn \<Rightarrow> uint32 \<Rightarrow> ('v, 'c) machine
     \<Rightarrow> (fault + (ecma_value option \<times> ('v, 'c) machine), 'v, 'c) progress" where
  "sort_loop_upto n compare_func sort_cb i st =
     (if 0 < i then
        (case array_get 0 st of
           Inl e \<Rightarrow> Done (Inl e)
         | Inr (swap, st1) \<Rightarrow>
        (case array_get i st1 of
           Inl e \<Rightarrow> Done (Inl e)
         | Inr (x, st2) \<Rightarrow>
        (case array_set 0 x st2 of
           Inl e \<Rightarrow> Done (Inl e)
         | Inr st3 \<Rightarrow>
        (case array_set i swap st3 of
           Inl e \<Rightarrow> Done (Inl e)
         | Inr st4 \<Rightarrow>
        (case array_to_heap_upto n 0 (i - 1) compare_func sort_cb st4 of
           Running s \<Rightarrow> Running s
         | Done (Inl e) \<Rightarrow> Done (Inl e)
         | Done (Inr (value, st5)) \<Rightarrow>
             if value = ECMA_VALUE_ERROR then Done (Inr (Some value, st5))
             else sort_loop_upto n compare_func sort_cb (i - 1) st5)))))
      else Done (Inr (None, st)))"
  by pat_completeness auto
termination
  by (relation "measure (\<lambda>(n, compare_func, sort_cb, i, st). unat i)")
     (auto simp: unat_minus_one word_greater_zero_iff unat_gt_0)

declare sort_loop_upto.simps [simp del]

text \<open>Lines 111 to 149.\<close>

definition array_heap_sort_helper_upto ::
  "nat \<Rightarrow> uint32 \<Rightarrow> 'v \<Rightarrow> ('v, 'c) sort_compare_fn \<Rightarrow> ('v, 'c) machine
     \<Rightarrow> (fault + (ecma_value \<times> ('v, 'c) machine), 'v, 'c) progress" where
  "array_heap_sort_helper_upto n right compare_func sort_cb st =
     (case build_loop_upto n right compare_func sort_cb (right div 2 + 1) st of
        Running s \<Rightarrow> Running s
      | Done (Inl e) \<Rightarrow> Done (Inl e)
      | Done (Inr (Some value, st1)) \<Rightarrow> Done (Inr (value, st1))
      | Done (Inr (None, st1)) \<Rightarrow>
     (case sort_loop_upto n compare_func sort_cb right st1 of
        Running s \<Rightarrow> Running s
      | Done (Inl e) \<Rightarrow> Done (Inl e)
      | Done (Inr (Some value, st2)) \<Rightarrow> Done (Inr (value, st2))
      | Done (Inr (None, st2)) \<Rightarrow> Done (Inr (ECMA_VALUE_EMPTY, st2))))"

section \<open>Vocabulary of the specification and of the proofs\<close>

subsection \<open>Comparators that define an order\<close>

text \<open>
  A comparator that never fails and whose sign follows the total order \<open>le\<close> on the values
  (\<open>le\<close> is total and transitive; ties are allowed): in every state of the runtime it returns
  a number, which is \<open>\<le> 0\<close> exactly when the first operand is below or equal to the second, and
  \<open>\<ge> 0\<close> exactly when the second is below or equal to the first.
\<close>

definition sign_order :: "('v, 'c) sort_compare_fn \<Rightarrow> 'v \<Rightarrow> ('v \<Rightarrow> 'v \<Rightarrow> bool) \<Rightarrow> bool" where
  "sign_order sort_cb compare_func le \<longleftrightarrow>
     (\<forall>a b. le a b \<or> le b a) \<and>
     (\<forall>a b c. le a b \<longrightarrow> le b c \<longrightarrow> le a c) \<and>
     (\<forall>a b rt. \<exists>n rt'. sort_cb a b compare_func rt = (COMPARE_NUMBER n, rt')
                    \<and> (n \<le> 0 \<longleftrightarrow> le a b) \<and> (0 \<le> n \<longleftrightarrow> le b a))"

subsection \<open>Events of a call\<close>

text \<open>The events between the state \<open>st\<close> at the call and the state \<open>st'\<close> at the return.\<close>

definition issued :: "('v, 'c) machine \<Rightarrow> ('v, 'c) machine \<Rightarrow> 'v event list" where
  "issued st st' = drop (length (trace st)) (trace st')"

text \<open>The values returned by the invocations of the comparator, in order.\<close>

fun outcomes :: "'v event list \<Rightarrow> compare_value list" where
  "outcomes [] = []"
| "outcomes (Invoke a b r # evs) = r # outcomes evs"
| "outcomes (e # evs) = outcomes evs"

text \<open>The indices of the array reads and writes, in order.\<close>

fun accessed :: "'v event list \<Rightarrow> uint32 list" where
  "accessed [] = []"
| "accessed (Read i # evs) = i # accessed evs"
| "accessed (Write i v # evs) = i # accessed evs"
| "accessed (e # evs) = accessed evs"

text \<open>The state in which one pass through the loop body ends.\<close>

fun state_of :: "('v, 'c) iteration \<Rightarrow> ('v, 'c) machine" where
  "state_of (Break r c s) = s"
| "state_of (Continue c s) = s"

text \<open>
  A monitor for the ownership of number values: it reads the events of a run and holds the
  number returned by the last invocation until that number is released. When nothing is held,
  reads and writes of the array do not matter, and an error value is not a number and is not
  held. While a number is held, the only event that keeps the discipline is its release; with
  \<open>shift\<close>, the copy of line 86 may come before the release: one read of the array,
  at some index \<open>c\<close>, and then one write at the parent \<open>(c - 1) div 2\<close>. Anything else violates
  the discipline: a second invocation or the end of the events while a number is held (a
  leak), the release of another number or of nothing (a double free).
\<close>

datatype holding = Nothing | Holding int | Copying int uint32 | Copied int | Violated

fun release_step :: "bool \<Rightarrow> holding \<Rightarrow> 'v event \<Rightarrow> holding" where
  "release_step shift Nothing (Read i) = Nothing"
| "release_step shift Nothing (Write i v) = Nothing"
| "release_step shift Nothing (Invoke a b COMPARE_ERROR) = Nothing"
| "release_step shift Nothing (Invoke a b (COMPARE_NUMBER n)) = Holding n"
| "release_step shift (Holding n) (Release m) = (if m = n then Nothing else Violated)"
| "release_step shift (Holding n) (Read c) = (if shift then Copying n c else Violated)"
| "release_step shift (Copying n c) (Write i v) = (if i = (c - 1) div 2 then Copied n else Violated)"
| "release_step shift (Copied n) (Release m) = (if m = n then Nothing else Violated)"
| "release_step shift h e = Violated"

text \<open>
  Every number is released as the first thing after the invocation that returned it, and at
  the end of the events nothing is held.
\<close>

definition released_immediately :: "'v event list \<Rightarrow> bool" where
  "released_immediately evs \<longleftrightarrow> foldl (release_step False) Nothing evs = Nothing"

text \<open>
  Every number is released after the invocation that returned it, with at most the copy of
  line 86 between the two, and at the end of the events nothing is held.
\<close>

definition released_exactly_once :: "'v event list \<Rightarrow> bool" where
  "released_exactly_once evs \<longleftrightarrow> foldl (release_step True) Nothing evs = Nothing"

subsection \<open>Invariants of the proofs\<close>

text \<open>
  \<open>picked \<dots> child st child1 st1\<close>: lines 41 to 61, run in state \<open>st\<close> without failure of the
  comparator, go on with the index \<open>child1\<close> in state \<open>st1\<close>.
\<close>

definition picked ::
  "('v, 'c) sort_compare_fn \<Rightarrow> 'v \<Rightarrow> uint32 \<Rightarrow> uint32 \<Rightarrow> ('v, 'c) machine
     \<Rightarrow> uint32 \<Rightarrow> ('v, 'c) machine \<Rightarrow> bool" where
  "picked sort_cb compare_func right child st child1 st1 \<longleftrightarrow>
     (if child < right then
        (\<exists>n rt. sort_cb (array_p st ! unat child) (array_p st ! Suc (unat child)) compare_func
                   (runtime st) = (COMPARE_NUMBER n, rt)
           \<and> child1 = (if n < 0 then child + 1 else child)
           \<and> st1 = st\<lparr>runtime := rt, trace := trace st @
                  [Read child, Read (child + 1),
                   Invoke (array_p st ! unat child) (array_p st ! Suc (unat child)) (COMPARE_NUMBER n),
                   Release n]\<rparr>)
      else child1 = child \<and> st1 = st)"

text \<open>
  The array \<open>A\<close> during a sift-down call that started on \<open>A0\<close> with \<open>index = i\<close> and
  \<open>right = r\<close>: with \<^verbatim>\<open>swap\<close> put at the position \<open>h\<close> of the hole it is a permutation of \<open>A0\<close>,
  and nothing outside \<open>[i, r]\<close> has changed.
\<close>

definition hole_inv :: "'v list \<Rightarrow> nat \<Rightarrow> nat \<Rightarrow> 'v \<Rightarrow> nat \<Rightarrow> 'v list \<Rightarrow> bool" where
  "hole_inv A0 i r swap h A \<longleftrightarrow>
     length A = length A0 \<and> r < length A0 \<and> i \<le> h \<and> h \<le> r
     \<and> mset (A[h := swap]) = mset A0
     \<and> (\<forall>j. j < i \<or> r < j \<longrightarrow> A ! j = A0 ! j)"

text \<open>
  The max-heap property on the indices up to \<open>r\<close>, for all nodes whose parent is at index \<open>k\<close> or
  beyond: no child is above its parent, the parent of \<open>c\<close> being \<open>(c - 1) div 2\<close>.
\<close>

definition heap_from :: "('v \<Rightarrow> 'v \<Rightarrow> bool) \<Rightarrow> 'v list \<Rightarrow> nat \<Rightarrow> nat \<Rightarrow> bool" where
  "heap_from le A k r \<longleftrightarrow>
     (\<forall>c. 0 < c \<and> c \<le> r \<and> k \<le> (c - 1) div 2 \<longrightarrow> le (A ! c) (A ! ((c - 1) div 2)))"

text \<open>
  The heap during a sift-down call from \<open>k\<close>, with the hole at \<open>h\<close>: the heap property holds at
  every parent other than the hole, and once the hole has moved it holds at the hole as well,
  whose element is not below \<^verbatim>\<open>swap\<close>.
\<close>

definition heap_hole :: "('v \<Rightarrow> 'v \<Rightarrow> bool) \<Rightarrow> 'v list \<Rightarrow> nat \<Rightarrow> nat \<Rightarrow> 'v \<Rightarrow> nat \<Rightarrow> bool" where
  "heap_hole le A k r swap h \<longleftrightarrow>
     (\<forall>c. 0 < c \<and> c \<le> r \<and> k \<le> (c - 1) div 2 \<and> (c - 1) div 2 \<noteq> h
          \<longrightarrow> le (A ! c) (A ! ((c - 1) div 2))) \<and>
     (h \<noteq> k \<longrightarrow> (\<forall>c. 0 < c \<and> c \<le> r \<and> (c - 1) div 2 = h \<longrightarrow> le (A ! c) (A ! h))
                  \<and> le swap (A ! h))"

text \<open>The state after lines 135 to 137, which exchange \<^verbatim>\<open>array_p[0]\<close> and \<^verbatim>\<open>array_p[i]\<close>.\<close>

definition exchanged :: "uint32 \<Rightarrow> ('v, 'c) machine \<Rightarrow> ('v, 'c) machine" where
  "exchanged i st =
     st\<lparr>array_p := (array_p st)[0 := array_p st ! unat i, unat i := array_p st ! 0],
        trace := trace st @ [Read 0, Read i, Write 0 (array_p st ! unat i), Write i (array_p st ! 0)]\<rparr>"

text \<open>
  The second phase before the iteration for \<open>i\<close>: a heap up to \<open>i\<close>, behind it a sorted part,
  and nothing in the heap above anything in the sorted part.
\<close>

definition sort_inv :: "('v \<Rightarrow> 'v \<Rightarrow> bool) \<Rightarrow> 'v list \<Rightarrow> nat \<Rightarrow> bool" where
  "sort_inv le A i \<longleftrightarrow>
     heap_from le A 0 i \<and> sorted_wrt le (drop (Suc i) A)
     \<and> (\<forall>x \<in> set (take (Suc i) A). \<forall>y \<in> set (drop (Suc i) A). le x y)"

text \<open>
  Events without failure: every number released (after the copy of line 86 at most),
  no invocation failed, every index at most \<open>right\<close>.
\<close>

definition calm :: "uint32 \<Rightarrow> 'v event list \<Rightarrow> bool" where
  "calm right evs \<longleftrightarrow>
     foldl (release_step True) Nothing evs = Nothing \<and> COMPARE_ERROR \<notin> set (outcomes evs)
     \<and> (\<forall>i \<in> set (accessed evs). i \<le> right)"

text \<open>
  Events of a run that a failure ended: calm events, the failing invocation, and then calm
  events without any invocation (array accesses only).
\<close>

definition aborted :: "uint32 \<Rightarrow> 'v event list \<Rightarrow> bool" where
  "aborted right evs \<longleftrightarrow>
     (\<exists>xs a b ys. evs = xs @ Invoke a b COMPARE_ERROR # ys \<and> calm right xs \<and> calm right ys
        \<and> outcomes ys = [])"

text \<open>The events of a call, by the value it returned.\<close>

definition finished :: "uint32 \<Rightarrow> ecma_value \<Rightarrow> 'v event list \<Rightarrow> bool" where
  "finished right rv evs \<longleftrightarrow>
     (case rv of ECMA_VALUE_EMPTY \<Rightarrow> calm right evs | ECMA_VALUE_ERROR \<Rightarrow> aborted right evs)"

text \<open>The events of one of the two \<^verbatim>\<open>for\<close> loops, by the way it ended.\<close>

definition loop_finished :: "uint32 \<Rightarrow> ecma_value option \<Rightarrow> 'v event list \<Rightarrow> bool" where
  "loop_finished right rvo evs \<longleftrightarrow>
     (case rvo of None \<Rightarrow> calm right evs | Some v \<Rightarrow> v = ECMA_VALUE_ERROR \<and> aborted right evs)"

subsection \<open>Inputs of the examples\<close>

text \<open>
  Comparators on integers for the examples. The state of the runtime is the number of
  invocations so far. \<open>difference_cb\<close> returns \<open>a - b\<close>; \<open>failing_cb k\<close> does the same except that
  invocation number \<open>k\<close> (counted from zero) fails; \<open>fussy_cb\<close> does the same except that it
  fails on the operands \<open>1\<close> and \<open>5\<close>, in this order, and on no others; \<open>tens_cb\<close> compares the
  tens only, so that different values tie.
\<close>

definition difference_cb :: "(int, nat) sort_compare_fn" where
  "difference_cb a b compare_func calls = (COMPARE_NUMBER (a - b), Suc calls)"

definition failing_cb :: "nat \<Rightarrow> (int, nat) sort_compare_fn" where
  "failing_cb k a b compare_func calls =
     (if calls = k then COMPARE_ERROR else COMPARE_NUMBER (a - b), Suc calls)"

definition fussy_cb :: "(int, nat) sort_compare_fn" where
  "fussy_cb a b compare_func calls =
     (if a = 1 \<and> b = 5 then COMPARE_ERROR else COMPARE_NUMBER (a - b), Suc calls)"

definition tens_cb :: "(int, nat) sort_compare_fn" where
  "tens_cb a b compare_func calls = (COMPARE_NUMBER (a div 10 - b div 10), Suc calls)"

text \<open>The state at the call: the array, no invocation yet, no event yet.\<close>

definition start :: "int list \<Rightarrow> (int, nat) machine" where
  "start xs = \<lparr>array_p = xs, runtime = 0, trace = []\<rparr>"

text \<open>An array of \<open>2 ^ 31 + 1\<close> elements: zeros, and a one in the last slot.\<close>

definition huge_array :: "int list" where
  "huge_array = replicate 2147483648 0 @ [1]"

text \<open>An array of \<open>2 ^ 32 - 1\<close> elements: zeros, and a one in the last slot.\<close>

definition full_array :: "int list" where
  "full_array = replicate 4294967294 0 @ [1]"

section \<open>Properties of the routines\<close>

subsection \<open>Index arithmetic on 32 bits\<close>

lemma unat_lt_max: "unat (w :: uint32) < 4294967296"
  using unsigned_less [of w, where 'a = nat] by simp

lemma unat_succ_below: "(child :: uint32) < right \<Longrightarrow> unat (child + 1) = Suc (unat child)"
proof -
  assume "child < right"
  then have "unat child < unat right" by (simp add: word_less_nat_alt)
  moreover have "unat right < 4294967296" by (rule unat_lt_max)
  ultimately have "unat child + 1 < 4294967296" by simp
  then show ?thesis by (simp add: unat_word_ariths)
qed

lemma unat_double_succ: "unat ((c :: uint32) * 2 + 1) = (2 * unat c + 1) mod 4294967296"
  by (simp add: unat_word_ariths mod_simps mult.commute)

lemma double_succ_nz: "(c :: uint32) * 2 + 1 \<noteq> 0"
proof
  assume "c * 2 + 1 = 0"
  then have "even (c * 2 + 1)" by simp
  then show False by simp
qed

lemma unat_parent: "(c :: uint32) \<noteq> 0 \<Longrightarrow> unat ((c - 1) div 2) = (unat c - 1) div 2"
  by (simp add: unat_div unat_minus_one)

lemma parent_le: "(c :: uint32) \<noteq> 0 \<Longrightarrow> c \<le> right \<Longrightarrow> (c - 1) div 2 \<le> right"
  by (simp add: word_le_nat_alt unat_parent)

subsection \<open>One pass through the loop body\<close>

lemma compare_children_eq:
  assumes "unat right < length (array_p st)"
  shows "compare_children sort_cb compare_func right child st =
     Inr (if child < right then
        (case sort_cb (array_p st ! unat child) (array_p st ! Suc (unat child)) compare_func (runtime st) of
           (COMPARE_ERROR, rt) \<Rightarrow>
             Break ECMA_VALUE_ERROR child
               (st\<lparr>runtime := rt, trace := trace st @
                  [Read child, Read (child + 1),
                   Invoke (array_p st ! unat child) (array_p st ! Suc (unat child)) COMPARE_ERROR]\<rparr>)
         | (COMPARE_NUMBER n, rt) \<Rightarrow>
             Continue (if n < 0 then child + 1 else child)
               (st\<lparr>runtime := rt, trace := trace st @
                  [Read child, Read (child + 1),
                   Invoke (array_p st ! unat child) (array_p st ! Suc (unat child)) (COMPARE_NUMBER n),
                   Release n]\<rparr>))
      else Continue child st)"
proof (cases "child < right")
  case True
  then have "unat child < unat right" by (simp add: word_less_nat_alt)
  with assms True show ?thesis
    by (simp add: compare_children_def array_get_def call_sort_cb_def ecma_free_value_def
        unat_succ_below split: prod.splits compare_value.splits)
next
  case False
  then show ?thesis by (simp add: compare_children_def)
qed

lemma compare_with_swap_eq:
  assumes "unat right < length (array_p st)" and "child \<le> right" and "child \<noteq> 0"
  shows "compare_with_swap sort_cb compare_func right swap child ret_value st =
     Inr (case sort_cb (array_p st ! unat child) swap compare_func (runtime st) of
           (COMPARE_ERROR, rt) \<Rightarrow>
             Break ECMA_VALUE_ERROR child
               (st\<lparr>runtime := rt, trace := trace st @
                  [Read child, Invoke (array_p st ! unat child) swap COMPARE_ERROR]\<rparr>)
         | (COMPARE_NUMBER n, rt) \<Rightarrow>
             if n \<le> 0 then
               Break ret_value child
                 (st\<lparr>runtime := rt, trace := trace st @
                    [Read child, Invoke (array_p st ! unat child) swap (COMPARE_NUMBER n),
                     Release n]\<rparr>)
             else
               Continue (child * 2 + 1)
                 (st\<lparr>array_p := (array_p st)[unat ((child - 1) div 2) := array_p st ! unat child],
                      runtime := rt, trace := trace st @
                    [Read child, Invoke (array_p st ! unat child) swap (COMPARE_NUMBER n),
                     Read child, Write ((child - 1) div 2) (array_p st ! unat child),
                     Release n]\<rparr>))"
proof -
  from assms have c: "unat child < length (array_p st)" by (simp add: word_le_nat_alt)
  from assms have p: "(child - 1) div 2 \<le> right" by (simp add: parent_le)
  then have p': "unat ((child - 1) div 2) < length (array_p st)"
    using assms(1) by (simp add: word_le_nat_alt)
  show ?thesis using assms(2) c p p'
    by (simp add: compare_with_swap_def array_get_def array_set_def call_sort_cb_def
        ecma_free_value_def Let_def split: prod.splits compare_value.splits)
qed

subsection \<open>Rules for the loop\<close>

lemma sift_loop_rule:
  assumes run: "sift_loop sort_cb compare_func right swap child ret_value st = Some res"
    and init: "I child st"
    and step: "\<And>child st c s. I child st \<Longrightarrow> child \<le> right \<Longrightarrow>
        sift_iteration sort_cb compare_func right swap child ret_value st = Inr (Continue c s) \<Longrightarrow> I c s"
    and brk: "\<And>child st r c s. I child st \<Longrightarrow> child \<le> right \<Longrightarrow>
        sift_iteration sort_cb compare_func right swap child ret_value st = Inr (Break r c s) \<Longrightarrow> Q (Inr (r, c, s))"
    and flt: "\<And>child st e. I child st \<Longrightarrow> child \<le> right \<Longrightarrow>
        sift_iteration sort_cb compare_func right swap child ret_value st = Inl e \<Longrightarrow> Q (Inl e)"
    and fin: "\<And>child st. I child st \<Longrightarrow> \<not> child \<le> right \<Longrightarrow> Q (Inr (ret_value, child, st))"
  shows "Q res"
proof -
  have "sort_cb = sort_cb \<and> compare_func = compare_func \<and> right = right \<and> swap = swap
          \<and> ret_value = ret_value \<longrightarrow> I child st \<longrightarrow> Q res"
  proof (rule sift_loop.raw_induct [where P = "\<lambda>cb cf r sw c rv s res.
          cb = sort_cb \<and> cf = compare_func \<and> r = right \<and> sw = swap \<and> rv = ret_value
            \<longrightarrow> I c s \<longrightarrow> Q res", OF _ run], goal_cases)
    case (1 f cb cf r sw c rv s y)
    show ?case
    proof (intro impI, elim conjE)
      assume eqs: "cb = sort_cb" "cf = compare_func" "r = right" "sw = swap" "rv = ret_value"
        and inv: "I c s"
      show "Q y"
      proof (cases "c \<le> right")
        case False
        with 1(2) eqs have "y = Inr (ret_value, c, s)" by simp
        with fin [OF inv False] show ?thesis by simp
      next
        case True
        show ?thesis
        proof (cases "sift_iteration sort_cb compare_func right swap c ret_value s")
          case (Inl e)
          with 1(2) eqs True have "y = Inl e" by simp
          with flt [OF inv True Inl] show ?thesis by simp
        next
          case (Inr it)
          show ?thesis
          proof (cases it)
            case (Break r' c' s')
            with 1(2) eqs True Inr have "y = Inr (r', c', s')" by simp
            with brk [OF inv True] Inr Break show ?thesis by simp
          next
            case (Continue c' s')
            with 1(2) eqs True Inr have "f sort_cb compare_func right swap c' ret_value s' = Some y"
              by simp
            from 1(1) [OF this] step [OF inv True] Inr Continue show ?thesis by simp
          qed
        qed
      qed
    qed
  qed
  with init show ?thesis by simp
qed

lemma picked_array: "picked sort_cb compare_func right child st child1 st1 \<Longrightarrow> array_p st1 = array_p st"
  by (auto simp: picked_def split: if_splits)

lemma picked_child:
  "picked sort_cb compare_func right child st child1 st1 \<Longrightarrow>
     child1 = child \<or> child < right \<and> child1 = child + 1"
  by (auto simp: picked_def split: if_splits)

lemma picked_bounds:
  assumes "picked sort_cb compare_func right child st child1 st1" "child \<le> right" "child \<noteq> 0"
  shows "child1 \<le> right" "child1 \<noteq> 0"
proof -
  from picked_child [OF assms(1)] have "child1 \<le> right \<and> child1 \<noteq> 0"
  proof
    assume "child1 = child" with assms show ?thesis by simp
  next
    assume a: "child < right \<and> child1 = child + 1"
    then have "unat child1 = Suc (unat child)" using unat_succ_below [of child right] by simp
    moreover from a have "unat child < unat right" by (simp add: word_less_nat_alt)
    ultimately show ?thesis by (auto simp: word_le_nat_alt unat_eq_0 [symmetric] simp del: unat_eq_0)
  qed
  then show "child1 \<le> right" "child1 \<noteq> 0" by simp_all
qed

lemma sift_iteration_cases [consumes 3, case_names child_error swap_error settled shifted]:
  assumes "unat right < length (array_p st)" and "child \<le> right" and "child \<noteq> 0"
  obtains
    (child_error) rt where "child < right"
      and "sort_cb (array_p st ! unat child) (array_p st ! Suc (unat child)) compare_func
             (runtime st) = (COMPARE_ERROR, rt)"
      and "sift_iteration sort_cb compare_func right swap child ret_value st =
             Inr (Break ECMA_VALUE_ERROR child
               (st\<lparr>runtime := rt, trace := trace st @
                  [Read child, Read (child + 1),
                   Invoke (array_p st ! unat child) (array_p st ! Suc (unat child)) COMPARE_ERROR]\<rparr>))"
  | (swap_error) child1 st1 rt where "picked sort_cb compare_func right child st child1 st1"
      and "sort_cb (array_p st ! unat child1) swap compare_func (runtime st1) = (COMPARE_ERROR, rt)"
      and "sift_iteration sort_cb compare_func right swap child ret_value st =
             Inr (Break ECMA_VALUE_ERROR child1
               (st1\<lparr>runtime := rt, trace := trace st1 @
                  [Read child1, Invoke (array_p st ! unat child1) swap COMPARE_ERROR]\<rparr>))"
  | (settled) child1 st1 n rt where "picked sort_cb compare_func right child st child1 st1"
      and "sort_cb (array_p st ! unat child1) swap compare_func (runtime st1) = (COMPARE_NUMBER n, rt)"
      and "n \<le> 0"
      and "sift_iteration sort_cb compare_func right swap child ret_value st =
             Inr (Break ret_value child1
               (st1\<lparr>runtime := rt, trace := trace st1 @
                  [Read child1, Invoke (array_p st ! unat child1) swap (COMPARE_NUMBER n),
                   Release n]\<rparr>))"
  | (shifted) child1 st1 n rt where "picked sort_cb compare_func right child st child1 st1"
      and "sort_cb (array_p st ! unat child1) swap compare_func (runtime st1) = (COMPARE_NUMBER n, rt)"
      and "0 < n"
      and "sift_iteration sort_cb compare_func right swap child ret_value st =
             Inr (Continue (child1 * 2 + 1)
               (st1\<lparr>array_p := (array_p st)[unat ((child1 - 1) div 2) := array_p st ! unat child1],
                     runtime := rt, trace := trace st1 @
                  [Read child1, Invoke (array_p st ! unat child1) swap (COMPARE_NUMBER n),
                   Read child1, Write ((child1 - 1) div 2) (array_p st ! unat child1),
                   Release n]\<rparr>))"
proof -
  let ?A = "array_p st"
  show thesis
  proof (cases "child < right")
    case False
    then have pk: "picked sort_cb compare_func right child st child st" by (simp add: picked_def)
    have it: "sift_iteration sort_cb compare_func right swap child ret_value st =
        compare_with_swap sort_cb compare_func right swap child ret_value st"
      using False assms(1) by (simp add: sift_iteration_def compare_children_eq)
    obtain r rt where r: "sort_cb (?A ! unat child) swap compare_func (runtime st) = (r, rt)"
      by (cases "sort_cb (?A ! unat child) swap compare_func (runtime st)")
    show ?thesis
    proof (cases r)
      case COMPARE_ERROR
      with r it assms show ?thesis
        by (intro swap_error [OF pk, of rt]) (simp_all add: compare_with_swap_eq)
    next
      case (COMPARE_NUMBER n)
      show ?thesis
      proof (cases "n \<le> 0")
        case True
        with COMPARE_NUMBER r it assms show ?thesis
          by (intro settled [OF pk, of n rt]) (simp_all add: compare_with_swap_eq)
      next
        case False
        with COMPARE_NUMBER r it assms show ?thesis
          by (intro shifted [OF pk, of n rt]) (simp_all add: compare_with_swap_eq)
      qed
    qed
  next
    case True
    obtain r0 rt0 where r0: "sort_cb (?A ! unat child) (?A ! Suc (unat child)) compare_func
        (runtime st) = (r0, rt0)"
      by (cases "sort_cb (?A ! unat child) (?A ! Suc (unat child)) compare_func (runtime st)")
    show ?thesis
    proof (cases r0)
      case COMPARE_ERROR
      with r0 True assms(1) show ?thesis
        by (intro child_error [of rt0]) (simp_all add: sift_iteration_def compare_children_eq)
    next
      case n0: (COMPARE_NUMBER n0)
      define child1 where "child1 = (if n0 < 0 then child + 1 else child)"
      define st1 where "st1 = st\<lparr>runtime := rt0, trace := trace st @
                  [Read child, Read (child + 1),
                   Invoke (?A ! unat child) (?A ! Suc (unat child)) (COMPARE_NUMBER n0),
                   Release n0]\<rparr>"
      have pk: "picked sort_cb compare_func right child st child1 st1"
        using True r0 n0 by (simp add: picked_def child1_def st1_def)
      have A1: "array_p st1 = ?A" by (simp add: st1_def)
      have it: "sift_iteration sort_cb compare_func right swap child ret_value st =
          compare_with_swap sort_cb compare_func right swap child1 ret_value st1"
        using True assms(1) r0 n0
        by (simp add: sift_iteration_def compare_children_eq child1_def st1_def)
      note b = picked_bounds [OF pk assms(2,3)]
      have len: "unat right < length (array_p st1)" using assms(1) A1 by simp
      obtain r rt where r: "sort_cb (?A ! unat child1) swap compare_func (runtime st1) = (r, rt)"
        by (cases "sort_cb (?A ! unat child1) swap compare_func (runtime st1)")
      show ?thesis
      proof (cases r)
        case COMPARE_ERROR
        with r it show ?thesis
          by (intro swap_error [OF pk, of rt]) (simp_all add: compare_with_swap_eq [OF len b] A1)
      next
        case (COMPARE_NUMBER n)
        show ?thesis
        proof (cases "n \<le> 0")
          case True
          with COMPARE_NUMBER r it show ?thesis
            by (intro settled [OF pk, of n rt]) (simp_all add: compare_with_swap_eq [OF len b] A1)
        next
          case False
          with COMPARE_NUMBER r it show ?thesis
            by (intro shifted [OF pk, of n rt]) (simp_all add: compare_with_swap_eq [OF len b] A1)
        qed
      qed
    qed
  qed
qed

lemma sift_loop_cases_rule [consumes 3, case_names init shifted child_error swap_error settled fin]:
  assumes run: "sift_loop sort_cb compare_func right swap child ret_value st = Some res"
    and len: "unat right < length (array_p st)" and nz: "child \<noteq> 0"
    and init: "I child st"
    and shifted: "\<And>child st child1 st1 n rt.
        \<lbrakk>I child st; child \<le> right; child \<noteq> 0; unat right < length (array_p st);
         picked sort_cb compare_func right child st child1 st1;
         sort_cb (array_p st ! unat child1) swap compare_func (runtime st1) = (COMPARE_NUMBER n, rt);
         0 < n\<rbrakk>
        \<Longrightarrow> I (child1 * 2 + 1)
              (st1\<lparr>array_p := (array_p st)[unat ((child1 - 1) div 2) := array_p st ! unat child1],
                    runtime := rt, trace := trace st1 @
                  [Read child1, Invoke (array_p st ! unat child1) swap (COMPARE_NUMBER n),
                   Read child1, Write ((child1 - 1) div 2) (array_p st ! unat child1),
                   Release n]\<rparr>)"
    and child_error: "\<And>child st rt.
        \<lbrakk>I child st; child \<le> right; child \<noteq> 0; unat right < length (array_p st); child < right;
         sort_cb (array_p st ! unat child) (array_p st ! Suc (unat child)) compare_func
             (runtime st) = (COMPARE_ERROR, rt)\<rbrakk>
        \<Longrightarrow> Q (Inr (ECMA_VALUE_ERROR, child,
               st\<lparr>runtime := rt, trace := trace st @
                  [Read child, Read (child + 1),
                   Invoke (array_p st ! unat child) (array_p st ! Suc (unat child)) COMPARE_ERROR]\<rparr>))"
    and swap_error: "\<And>child st child1 st1 rt.
        \<lbrakk>I child st; child \<le> right; child \<noteq> 0; unat right < length (array_p st);
         picked sort_cb compare_func right child st child1 st1;
         sort_cb (array_p st ! unat child1) swap compare_func (runtime st1) = (COMPARE_ERROR, rt)\<rbrakk>
        \<Longrightarrow> Q (Inr (ECMA_VALUE_ERROR, child1,
               st1\<lparr>runtime := rt, trace := trace st1 @
                  [Read child1, Invoke (array_p st ! unat child1) swap COMPARE_ERROR]\<rparr>))"
    and settled: "\<And>child st child1 st1 n rt.
        \<lbrakk>I child st; child \<le> right; child \<noteq> 0; unat right < length (array_p st);
         picked sort_cb compare_func right child st child1 st1;
         sort_cb (array_p st ! unat child1) swap compare_func (runtime st1) = (COMPARE_NUMBER n, rt);
         n \<le> 0\<rbrakk>
        \<Longrightarrow> Q (Inr (ret_value, child1,
               st1\<lparr>runtime := rt, trace := trace st1 @
                  [Read child1, Invoke (array_p st ! unat child1) swap (COMPARE_NUMBER n),
                   Release n]\<rparr>))"
    and fin: "\<And>child st. \<lbrakk>I child st; child \<noteq> 0; unat right < length (array_p st);
         \<not> child \<le> right\<rbrakk> \<Longrightarrow> Q (Inr (ret_value, child, st))"
  shows "Q res"
proof (rule sift_loop_rule [OF run,
      where I = "\<lambda>c s. I c s \<and> c \<noteq> 0 \<and> unat right < length (array_p s)"], goal_cases)
  case 1
  from init nz len show ?case by simp
next
  case (2 c s c' s')
  then have i: "I c s" and nz: "c \<noteq> 0" and l: "unat right < length (array_p s)" by simp_all
  from l 2(2) nz show ?case
  proof (cases rule: sift_iteration_cases [where sort_cb = sort_cb and compare_func = compare_func
        and swap = swap and ret_value = ret_value])
    case (shifted child1 st1 n rt)
    note b = picked_bounds [OF shifted(1) 2(2) nz]
    have nz': "child1 * 2 + 1 \<noteq> 0" by (rule double_succ_nz)
    from shifted(4) 2(3) have c': "c' = child1 * 2 + 1"
      and s': "s' = st1\<lparr>array_p := (array_p s)[unat ((child1 - 1) div 2) := array_p s ! unat child1],
                     runtime := rt, trace := trace st1 @
                  [Read child1, Invoke (array_p s ! unat child1) swap (COMPARE_NUMBER n),
                   Read child1, Write ((child1 - 1) div 2) (array_p s ! unat child1),
                   Release n]\<rparr>" by simp_all
    have "I c' s'" unfolding c' s' by (rule assms(5) [OF i 2(2) nz l shifted(1,2,3)])
    moreover have "length (array_p s') = length (array_p s)" unfolding s' by simp
    ultimately show ?thesis using nz' l c' by simp
  qed (use 2(3) in simp_all)
next
  case (3 c s r c' s')
  then have i: "I c s" and nz: "c \<noteq> 0" and l: "unat right < length (array_p s)" by simp_all
  from l 3(2) nz show ?case
  proof (cases rule: sift_iteration_cases [where sort_cb = sort_cb and compare_func = compare_func
        and swap = swap and ret_value = ret_value])
    case (child_error rt)
    with 3(3) assms(6) [OF i 3(2) nz l child_error(1,2)] show ?thesis by auto
  next
    case (swap_error child1 st1 rt)
    with 3(3) assms(7) [OF i 3(2) nz l swap_error(1,2)] show ?thesis by auto
  next
    case (settled child1 st1 n rt)
    with 3(3) assms(8) [OF i 3(2) nz l settled(1,2,3)] show ?thesis by auto
  next
    case (shifted child1 st1 n rt)
    with 3(3) show ?thesis by simp
  qed
next
  case (4 c s e)
  then have i: "I c s" and nz: "c \<noteq> 0" and l: "unat right < length (array_p s)" by simp_all
  from l 4(2) nz show ?case
    by (cases rule: sift_iteration_cases [where sort_cb = sort_cb and compare_func = compare_func
        and swap = swap and ret_value = ret_value]) (use 4(3) in simp_all)
next
  case (5 c s)
  with fin show ?case by simp
qed

subsection \<open>Termination and permutation, when no index wraps\<close>

lemma unat_double_succ_small:
  "unat (c :: uint32) < 2147483648 \<Longrightarrow> unat (c * 2 + 1) = 2 * unat c + 1"
  by (simp add: unat_double_succ)

lemma picked_hole:
  assumes pk: "picked sort_cb compare_func right child st child1 st1"
    and h: "unat child = 2 * h + 1" and le: "child \<le> right" and bound: "unat right < 2147483648"
  shows "unat child1 = 2 * h + 1 \<or> unat child1 = 2 * h + 2"
    and "unat ((child1 - 1) div 2) = h"
    and "unat (child1 * 2 + 1) = 2 * unat child1 + 1"
    and "unat child1 \<le> unat right"
proof -
  from h have nz: "child \<noteq> 0" by auto
  note b = picked_bounds [OF pk le nz]
  from picked_child [OF pk] show c: "unat child1 = 2 * h + 1 \<or> unat child1 = 2 * h + 2"
    using h unat_succ_below [of child right] by auto
  from b show r: "unat child1 \<le> unat right" by (simp add: word_le_nat_alt)
  from c b show "unat ((child1 - 1) div 2) = h" by (auto simp: unat_parent)
  from r bound show "unat (child1 * 2 + 1) = 2 * unat child1 + 1"
    by (simp add: unat_double_succ_small)
qed

lemma sift_loop_terminates:
  assumes "unat right < length (array_p st)" and "unat right < 2147483648" and "child \<noteq> 0"
  shows "\<exists>res. sift_loop sort_cb compare_func right swap child ret_value st = Some res"
  using assms
proof (induction "Suc (unat right) - unat child" arbitrary: child st rule: less_induct)
  case less
  show ?case
  proof (cases "child \<le> right")
    case False
    then show ?thesis by (subst sift_loop.simps) simp
  next
    case True
    from less.prems(1) True less.prems(3) show ?thesis
    proof (cases rule: sift_iteration_cases [where sort_cb = sort_cb and compare_func = compare_func
        and swap = swap and ret_value = ret_value])
      case (shifted child1 st1 n rt)
      note b = picked_bounds [OF shifted(1) True less.prems(3)]
      from b have r: "unat child1 \<le> unat right" by (simp add: word_le_nat_alt)
      with less.prems(2) have d: "unat (child1 * 2 + 1) = 2 * unat child1 + 1"
        by (simp add: unat_double_succ_small)
      from picked_child [OF shifted(1)] have "unat child \<le> unat child1"
        using unat_succ_below [of child right] by auto
      moreover from less.prems(3) have "0 < unat child" by (simp add: unat_gt_0)
      ultimately have m: "Suc (unat right) - unat (child1 * 2 + 1) < Suc (unat right) - unat child"
        using d r by simp
      let ?s = "st1\<lparr>array_p := (array_p st)[unat ((child1 - 1) div 2) := array_p st ! unat child1],
                     runtime := rt, trace := trace st1 @
                  [Read child1, Invoke (array_p st ! unat child1) swap (COMPARE_NUMBER n),
                   Read child1, Write ((child1 - 1) div 2) (array_p st ! unat child1),
                   Release n]\<rparr>"
      have "\<exists>res. sift_loop sort_cb compare_func right swap (child1 * 2 + 1) ret_value ?s = Some res"
        by (rule less.hyps [OF m]) (use less.prems in \<open>simp_all add: double_succ_nz\<close>)
      with shifted(4) True show ?thesis by (subst sift_loop.simps) simp
    qed (use True in \<open>subst sift_loop.simps, simp\<close>)+
  qed
qed

lemma mset_shift_hole:
  assumes "h < length A" and "c < length A" and "h \<noteq> c"
  shows "mset (A[h := A ! c, c := s]) = mset (A[h := s])"
proof -
  let ?B = "A[h := s]"
  have "mset (?B[h := ?B ! c, c := ?B ! h]) = mset ?B"
    by (rule mset_swap) (use assms in simp_all)
  moreover have "?B[h := ?B ! c, c := ?B ! h] = A[h := A ! c, c := s]"
    using assms by simp
  ultimately show ?thesis by simp
qed

lemma hole_inv_shift:
  assumes "hole_inv A0 i r swap h A" and "c = 2 * h + 1 \<or> c = 2 * h + 2" and "c \<le> r"
  shows "hole_inv A0 i r swap c (A[h := A ! c])"
  using assms by (auto simp: hole_inv_def mset_shift_hole)

lemma sift_loop_hole:
  assumes run: "sift_loop sort_cb compare_func right swap child ret_value st = Some res"
    and len: "unat right < length (array_p st)"
    and bound: "unat right < 2147483648"
    and child: "unat child = 2 * h0 + 1"
    and init: "hole_inv A0 i (unat right) swap h0 (array_p st)"
  shows "\<exists>r c s. res = Inr (r, c, s) \<and> c \<noteq> 0
           \<and> hole_inv A0 i (unat right) swap (unat ((c - 1) div 2)) (array_p s)"
proof -
  from child have nz: "child \<noteq> 0" by auto
  have init': "\<exists>h. unat child = 2 * h + 1 \<and> hole_inv A0 i (unat right) swap h (array_p st)"
    using child init by blast
  show ?thesis
  proof (rule sift_loop_cases_rule [OF run len nz, where
        I = "\<lambda>c s. \<exists>h. unat c = 2 * h + 1 \<and> hole_inv A0 i (unat right) swap h (array_p s)"],
      goal_cases)
    case 1
    from init' show ?case .
  next
    case (2 child st child1 st1 n rt)
    from 2(1) obtain h where h: "unat child = 2 * h + 1"
      and inv: "hole_inv A0 i (unat right) swap h (array_p st)" by blast
    note ph = picked_hole [OF 2(5) h 2(2) bound]
    from hole_inv_shift [OF inv ph(1) ph(4)] ph(2,3) show ?case by auto
  next
    case (3 child st rt)
    then show ?case by (auto simp: unat_parent)
  next
    case (4 child st child1 st1 rt)
    from 4(1) obtain h where h: "unat child = 2 * h + 1"
      and inv: "hole_inv A0 i (unat right) swap h (array_p st)" by blast
    note ph = picked_hole [OF 4(5) h 4(2) bound]
    note b = picked_bounds [OF 4(5) 4(2,3)]
    from inv ph(2) b picked_array [OF 4(5)] show ?case by simp
  next
    case (5 child st child1 st1 n rt)
    from 5(1) obtain h where h: "unat child = 2 * h + 1"
      and inv: "hole_inv A0 i (unat right) swap h (array_p st)" by blast
    note ph = picked_hole [OF 5(5) h 5(2) bound]
    note b = picked_bounds [OF 5(5) 5(2,3)]
    from inv ph(2) b picked_array [OF 5(5)] show ?case by simp
  next
    case (6 child st)
    then show ?case by (auto simp: unat_parent)
  qed
qed

subsection \<open>The loop inside the routine\<close>

lemma wrapped_parent_le:
  assumes "(c1 :: uint32) \<le> right"
  shows "(c1 * 2 + 1 - 1) div 2 \<le> right"
proof -
  have "unat (c1 * 2) = (2 * unat c1) mod 4294967296"
    by (simp add: unat_word_ariths mult.commute)
  then have "unat ((c1 * 2) div 2) \<le> unat c1"
    by (simp add: unat_div)
  with assms show ?thesis by (simp add: word_le_nat_alt)
qed

lemma sift_loop_exit:
  assumes run: "sift_loop sort_cb compare_func right swap (c0 * 2 + 1) ret_value st = Some res"
    and len: "unat right < length (array_p st)"
    and c0: "c0 \<le> right"
  shows "\<exists>r c s. res = Inr (r, c, s) \<and> c \<noteq> 0 \<and> (c - 1) div 2 \<le> right
           \<and> length (array_p s) = length (array_p st)"
proof (rule sift_loop_cases_rule [OF run len double_succ_nz, where
        I = "\<lambda>c s. (\<exists>c1. c = c1 * 2 + 1 \<and> c1 \<le> right) \<and> length (array_p s) = length (array_p st)"],
      goal_cases)
  case 1
  from c0 show ?case by auto
next
  case (2 child st' child1 st1 n rt)
  note b = picked_bounds [OF 2(5) 2(2,3)]
  with 2(1) picked_array [OF 2(5)] show ?case by auto
next
  case (3 child st' rt)
  then show ?case by (simp add: parent_le)
next
  case (4 child st' child1 st1 rt)
  note b = picked_bounds [OF 4(5) 4(2,3)]
  with 4(1) picked_array [OF 4(5)] show ?case by (simp add: parent_le)
next
  case (5 child st' child1 st1 n rt)
  note b = picked_bounds [OF 5(5) 5(2,3)]
  with 5(1) picked_array [OF 5(5)] show ?case by (simp add: parent_le)
next
  case (6 child st')
  then show ?case using wrapped_parent_le by auto
qed

lemma to_heap_unfold:
  assumes "index \<le> right" and "unat right < length (array_p st)"
    and "sift_loop sort_cb compare_func right (array_p st ! unat index) (index * 2 + 1)
           ECMA_VALUE_EMPTY (st\<lparr>trace := trace st @ [Read index]\<rparr>) = Some (Inr (rv, c, s))"
  shows "ecma_builtin_helper_array_to_heap index right compare_func sort_cb st =
     Some (Inr (rv, s\<lparr>array_p := (array_p s)[unat ((c - 1) div 2) := array_p st ! unat index],
                       trace := trace s @ [Write ((c - 1) div 2) (array_p st ! unat index)]\<rparr>))"
proof -
  from assms(1,2) have i: "unat index < length (array_p st)" by (simp add: word_le_nat_alt)
  from sift_loop_exit [OF assms(3) _ assms(1)] assms(2)
  have p: "(c - 1) div 2 \<le> right" and l: "length (array_p s) = length (array_p st)" by simp_all
  then have "unat ((c - 1) div 2) < length (array_p s)" using assms(2) by (simp add: word_le_nat_alt)
  with i p assms(3) show ?thesis
    by (simp add: ecma_builtin_helper_array_to_heap_def array_get_def array_set_def Let_def)
qed

lemma to_heap_None:
  assumes "index \<le> right" and "unat right < length (array_p st)"
    and "sift_loop sort_cb compare_func right (array_p st ! unat index) (index * 2 + 1)
           ECMA_VALUE_EMPTY (st\<lparr>trace := trace st @ [Read index]\<rparr>) = None"
  shows "ecma_builtin_helper_array_to_heap index right compare_func sort_cb st = None"
proof -
  from assms(1,2) have i: "unat index < length (array_p st)" by (simp add: word_le_nat_alt)
  with assms(3) show ?thesis
    by (simp add: ecma_builtin_helper_array_to_heap_def array_get_def Let_def)
qed

lemma to_heap_cases:
  assumes "index \<le> right" and "unat right < length (array_p st)"
  obtains (diverges) "ecma_builtin_helper_array_to_heap index right compare_func sort_cb st = None"
      and "sift_loop sort_cb compare_func right (array_p st ! unat index) (index * 2 + 1)
           ECMA_VALUE_EMPTY (st\<lparr>trace := trace st @ [Read index]\<rparr>) = None"
      and "\<not> unat right < 2147483648"
  | (returns) rv c s where
      "sift_loop sort_cb compare_func right (array_p st ! unat index) (index * 2 + 1)
           ECMA_VALUE_EMPTY (st\<lparr>trace := trace st @ [Read index]\<rparr>) = Some (Inr (rv, c, s))"
      and "ecma_builtin_helper_array_to_heap index right compare_func sort_cb st =
     Some (Inr (rv, s\<lparr>array_p := (array_p s)[unat ((c - 1) div 2) := array_p st ! unat index],
                       trace := trace s @ [Write ((c - 1) div 2) (array_p st ! unat index)]\<rparr>))"
      and "c \<noteq> 0" and "(c - 1) div 2 \<le> right" and "length (array_p s) = length (array_p st)"
proof (cases "sift_loop sort_cb compare_func right (array_p st ! unat index) (index * 2 + 1)
           ECMA_VALUE_EMPTY (st\<lparr>trace := trace st @ [Read index]\<rparr>)")
  case None
  have "\<not> unat right < 2147483648"
  proof
    assume "unat right < 2147483648"
    have "\<exists>res. sift_loop sort_cb compare_func right (array_p st ! unat index) (index * 2 + 1)
           ECMA_VALUE_EMPTY (st\<lparr>trace := trace st @ [Read index]\<rparr>) = Some res"
      by (rule sift_loop_terminates) (use assms(2) \<open>unat right < 2147483648\<close> in
          \<open>simp_all add: double_succ_nz\<close>)
    with None show False by simp
  qed
  with to_heap_None [OF assms None] None show ?thesis by (rule diverges)
next
  case (Some res)
  from sift_loop_exit [OF Some _ assms(1)] assms(2)
  obtain rv c s where res: "res = Inr (rv, c, s)" and f: "c \<noteq> 0" "(c - 1) div 2 \<le> right"
    "length (array_p s) = length (array_p st)" by auto
  from Some res have run: "sift_loop sort_cb compare_func right (array_p st ! unat index) (index * 2 + 1)
           ECMA_VALUE_EMPTY (st\<lparr>trace := trace st @ [Read index]\<rparr>) = Some (Inr (rv, c, s))" by simp
  from run to_heap_unfold [OF assms run] f show ?thesis by (rule returns)
qed

subsection \<open>The heap property\<close>

lemma sign_order_refl: "sign_order sort_cb compare_func le \<Longrightarrow> le a a"
  by (auto simp: sign_order_def)

lemma sign_order_trans: "sign_order sort_cb compare_func le \<Longrightarrow> le a b \<Longrightarrow> le b c \<Longrightarrow> le a c"
  unfolding sign_order_def by blast

lemma sign_order_result:
  assumes "sign_order sort_cb compare_func le"
  obtains n rt' where "sort_cb a b compare_func rt = (COMPARE_NUMBER n, rt')"
    and "n \<le> 0 \<longleftrightarrow> le a b" and "0 \<le> n \<longleftrightarrow> le b a"
  using assms unfolding sign_order_def by blast

lemma sign_order_no_error:
  "sign_order sort_cb compare_func le \<Longrightarrow> sort_cb a b compare_func rt \<noteq> (COMPARE_ERROR, rt')"
  by (metis sign_order_result compare_value.distinct(1) prod.inject)

lemma sign_order_pos:
  assumes "sign_order sort_cb compare_func le"
    and "sort_cb a b compare_func rt = (COMPARE_NUMBER n, rt')" and "0 < n"
  shows "le b a"
proof -
  obtain m rt'' where "sort_cb a b compare_func rt = (COMPARE_NUMBER m, rt'')" "0 \<le> m \<longleftrightarrow> le b a"
    by (rule sign_order_result [OF assms(1)])
  with assms(2,3) show ?thesis by simp
qed

lemma sign_order_nonpos:
  assumes "sign_order sort_cb compare_func le"
    and "sort_cb a b compare_func rt = (COMPARE_NUMBER n, rt')" and "n \<le> 0"
  shows "le a b"
proof -
  obtain m rt'' where "sort_cb a b compare_func rt = (COMPARE_NUMBER m, rt'')" "m \<le> 0 \<longleftrightarrow> le a b"
    by (rule sign_order_result [OF assms(1)])
  with assms(2,3) show ?thesis by simp
qed

lemma sign_order_nonneg:
  assumes "sign_order sort_cb compare_func le"
    and "sort_cb a b compare_func rt = (COMPARE_NUMBER n, rt')" and "0 \<le> n"
  shows "le b a"
proof -
  obtain m rt'' where "sort_cb a b compare_func rt = (COMPARE_NUMBER m, rt'')" "0 \<le> m \<longleftrightarrow> le b a"
    by (rule sign_order_result [OF assms(1)])
  with assms(2,3) show ?thesis by simp
qed

text \<open>The child picked by lines 41 to 61 is not smaller than any child of the hole.\<close>

lemma picked_greatest:
  assumes so: "sign_order sort_cb compare_func le"
    and pk: "picked sort_cb compare_func right child st child1 st1"
    and h: "unat child = 2 * h + 1" and le: "child \<le> right"
    and c: "0 < c" "c \<le> unat right" "(c - 1) div 2 = h"
  shows "le (array_p st ! c) (array_p st ! unat child1)"
proof -
  from c(1,3) have c': "c = 2 * h + 1 \<or> c = 2 * h + 2" by presburger
  show ?thesis
  proof (cases "child < right")
    case False
    with pk have "child1 = child" by (simp add: picked_def)
    moreover from False le have "unat child = unat right" by (simp add: word_less_nat_alt word_le_nat_alt)
    ultimately have "c = unat child1" using c' c(2) h by auto
    then show ?thesis by (simp add: sign_order_refl [OF so])
  next
    case True
    with pk obtain n rt where r: "sort_cb (array_p st ! unat child) (array_p st ! Suc (unat child))
          compare_func (runtime st) = (COMPARE_NUMBER n, rt)"
      and c1: "child1 = (if n < 0 then child + 1 else child)"
      by (auto simp: picked_def)
    have s: "unat (child + 1) = 2 * h + 2" using unat_succ_below [OF True] h by simp
    show ?thesis
    proof (cases "n < 0")
      case True
      then have "le (array_p st ! (2 * h + 1)) (array_p st ! (2 * h + 2))"
        using sign_order_nonpos [OF so r] h by simp
      with True c1 s c' show ?thesis by (auto simp: sign_order_refl [OF so])
    next
      case False
      then have "le (array_p st ! (2 * h + 2)) (array_p st ! (2 * h + 1))"
        using sign_order_nonneg [OF so r] h by simp
      with False c1 h c' show ?thesis by (auto simp: sign_order_refl [OF so])
    qed
  qed
qed

lemma heap_hole_init: "heap_from le A (Suc k) r \<Longrightarrow> heap_hole le A k r swap k"
  by (auto simp: heap_from_def heap_hole_def Suc_le_eq)

lemma heap_hole_shift:
  assumes so: "sign_order sort_cb compare_func le"
    and inv: "heap_hole le A k r swap h" and kh: "k \<le> h"
    and c1: "c1 = 2 * h + 1 \<or> c1 = 2 * h + 2" "c1 \<le> r" "r < length A"
    and great: "\<And>c. 0 < c \<Longrightarrow> c \<le> r \<Longrightarrow> (c - 1) div 2 = h \<Longrightarrow> le (A ! c) (A ! c1)"
    and sw: "le swap (A ! c1)"
  shows "heap_hole le (A[h := A ! c1]) k r swap c1"
  unfolding heap_hole_def
proof (intro conjI allI impI)
  fix c
  assume a: "0 < c \<and> c \<le> r \<and> k \<le> (c - 1) div 2 \<and> (c - 1) div 2 \<noteq> c1"
  let ?p = "(c - 1) div 2"
  from a have pc: "?p < c" by presburger
  from c1 kh have hl: "h < length A" by auto
  show "le (A[h := A ! c1] ! c) (A[h := A ! c1] ! ?p)"
  proof (cases "?p = h")
    case True
    with a pc have "c \<noteq> h" by simp
    with True hl great [of c] a show ?thesis by simp
  next
    case False
    show ?thesis
    proof (cases "c = h")
      case True
      with a have "k < h" using pc by simp
      with inv have 1: "le (A ! c1) (A ! h)" using c1 by (auto simp: heap_hole_def)
      from inv a False have "le (A ! c) (A ! ?p)" by (simp add: heap_hole_def)
      with 1 True have "le (A ! c1) (A ! ?p)" using sign_order_trans [OF so] by blast
      with True False hl show ?thesis by simp
    next
      case cf: False
      from inv a False have "le (A ! c) (A ! ?p)" by (simp add: heap_hole_def)
      with cf False show ?thesis by simp
    qed
  qed
next
  fix c
  assume "c1 \<noteq> k" and a: "0 < c \<and> c \<le> r \<and> (c - 1) div 2 = c1"
  from c1 kh a have "c \<noteq> h" "c1 \<noteq> h" "k \<le> (c - 1) div 2" "(c - 1) div 2 \<noteq> h" by auto
  with inv a show "le (A[h := A ! c1] ! c) (A[h := A ! c1] ! c1)" by (auto simp: heap_hole_def)
next
  from c1 have "c1 \<noteq> h" by auto
  with sw show "le swap (A[h := A ! c1] ! c1)" by simp
qed

lemma heap_hole_fill:
  assumes so: "sign_order sort_cb compare_func le"
    and inv: "heap_hole le A k r swap h" and kh: "k \<le> h" and hr: "h \<le> r" and len: "r < length A"
    and below: "\<And>c. 0 < c \<Longrightarrow> c \<le> r \<Longrightarrow> (c - 1) div 2 = h \<Longrightarrow> le (A ! c) swap"
  shows "heap_from le (A[h := swap]) k r"
  unfolding heap_from_def
proof (intro allI impI)
  fix c
  assume a: "0 < c \<and> c \<le> r \<and> k \<le> (c - 1) div 2"
  let ?p = "(c - 1) div 2"
  from a have pc: "?p < c" by presburger
  from hr len have hl: "h < length A" by simp
  show "le (A[h := swap] ! c) (A[h := swap] ! ?p)"
  proof (cases "?p = h")
    case True
    with a pc have "c \<noteq> h" by simp
    with True hl below [of c] a show ?thesis by simp
  next
    case False
    show ?thesis
    proof (cases "c = h")
      case True
      with a have "k < h" using pc by simp
      with inv have 1: "le swap (A ! h)" by (auto simp: heap_hole_def)
      from inv a False have "le (A ! c) (A ! ?p)" by (simp add: heap_hole_def)
      with 1 True have "le swap (A ! ?p)" using sign_order_trans [OF so] by blast
      with True False hl show ?thesis by simp
    next
      case cf: False
      from inv a False have "le (A ! c) (A ! ?p)" by (simp add: heap_hole_def)
      with cf False show ?thesis by simp
    qed
  qed
qed

lemma sift_loop_heap:
  assumes so: "sign_order sort_cb compare_func le"
    and run: "sift_loop sort_cb compare_func right swap child ret_value st = Some res"
    and len: "unat right < length (array_p st)"
    and bound: "unat right < 2147483648"
    and child: "unat child = 2 * h0 + 1"
    and init: "heap_hole le (array_p st) k (unat right) swap h0" "k \<le> h0" "h0 \<le> unat right"
  shows "\<exists>c s. res = Inr (ret_value, c, s)
           \<and> heap_from le ((array_p s)[unat ((c - 1) div 2) := swap]) k (unat right)"
proof -
  from child have nz: "child \<noteq> 0" by auto
  show ?thesis
  proof (rule sift_loop_cases_rule [OF run len nz, where
        I = "\<lambda>c s. \<exists>h. unat c = 2 * h + 1 \<and> k \<le> h \<and> h \<le> unat right
               \<and> heap_hole le (array_p s) k (unat right) swap h"],
      goal_cases)
    case 1
    from child init show ?case by blast
  next
    case (2 child st child1 st1 n rt)
    from 2(1) obtain h where h: "unat child = 2 * h + 1" and kh: "k \<le> h"
      and inv: "heap_hole le (array_p st) k (unat right) swap h" by blast
    note ph = picked_hole [OF 2(5) h 2(2) bound]
    have "heap_hole le ((array_p st)[h := array_p st ! unat child1]) k (unat right) swap (unat child1)"
      using so inv kh ph(1) ph(4) 2(4)
    proof (rule heap_hole_shift)
      fix c assume "0 < c" "c \<le> unat right" "(c - 1) div 2 = h"
      then show "le (array_p st ! c) (array_p st ! unat child1)"
        by (rule picked_greatest [OF so 2(5) h 2(2)])
    next
      from sign_order_pos [OF so 2(6,7)] show "le swap (array_p st ! unat child1)" .
    qed
    with ph kh show ?case by auto
  next
    case (3 child st rt)
    with sign_order_no_error [OF so] show ?case by blast
  next
    case (4 child st child1 st1 rt)
    with sign_order_no_error [OF so] show ?case by blast
  next
    case (5 child st child1 st1 n rt)
    from 5(1) obtain h where h: "unat child = 2 * h + 1" and kh: "k \<le> h" and hr: "h \<le> unat right"
      and inv: "heap_hole le (array_p st) k (unat right) swap h" by blast
    note ph = picked_hole [OF 5(5) h 5(2) bound]
    have "heap_from le ((array_p st)[h := swap]) k (unat right)"
      using so inv kh hr 5(4)
    proof (rule heap_hole_fill)
      fix c assume "0 < c" "c \<le> unat right" "(c - 1) div 2 = h"
      then have "le (array_p st ! c) (array_p st ! unat child1)"
        by (rule picked_greatest [OF so 5(5) h 5(2)])
      moreover from sign_order_nonpos [OF so 5(6,7)] have "le (array_p st ! unat child1) swap" .
      ultimately show "le (array_p st ! c) swap" by (rule sign_order_trans [OF so])
    qed
    with ph(2) picked_array [OF 5(5)] show ?case by simp
  next
    case (6 child st)
    from 6(1) obtain h where h: "unat child = 2 * h + 1" and kh: "k \<le> h" and hr: "h \<le> unat right"
      and inv: "heap_hole le (array_p st) k (unat right) swap h" by blast
    from 6(4) h have big: "unat right < 2 * h + 1" by (simp add: word_le_nat_alt)
    have "heap_from le ((array_p st)[h := swap]) k (unat right)"
      using so inv kh hr 6(3)
    proof (rule heap_hole_fill)
      fix c assume "0 < c" "c \<le> unat right" "(c - 1) div 2 = h"
      with big have False by presburger
      then show "le (array_p st ! c) swap" ..
    qed
    moreover from h 6(2) have "unat ((child - 1) div 2) = h" by (simp add: unat_parent)
    ultimately show ?case by simp
  qed
qed

text \<open>Summary of one call of the sift-down routine when no index computation wraps.\<close>

lemma to_heap_array:
  assumes idx: "index \<le> right" and len: "unat right < length (array_p st)"
    and bound: "unat right < 2147483648"
  obtains rv st' where
    "ecma_builtin_helper_array_to_heap index right compare_func sort_cb st = Some (Inr (rv, st'))"
    and "length (array_p st') = length (array_p st)"
    and "mset (array_p st') = mset (array_p st)"
    and "\<And>j. j < unat index \<or> unat right < j \<Longrightarrow> array_p st' ! j = array_p st ! j"
    and "\<And>le. sign_order sort_cb compare_func le \<Longrightarrow>
            heap_from le (array_p st) (Suc (unat index)) (unat right) \<Longrightarrow>
            rv = ECMA_VALUE_EMPTY \<and> heap_from le (array_p st') (unat index) (unat right)"
  using idx len
proof (cases rule: to_heap_cases [where sort_cb = sort_cb and compare_func = compare_func])
  case diverges
  with bound show ?thesis by simp
next
  case (returns rv c s)
  let ?st1 = "st\<lparr>trace := trace st @ [Read index]\<rparr>"
  let ?swap = "array_p st ! unat index"
  let ?h = "unat ((c - 1) div 2)"
  let ?st' = "s\<lparr>array_p := (array_p s)[?h := ?swap], trace := trace s @ [Write ((c - 1) div 2) ?swap]\<rparr>"
  from idx have ir: "unat index \<le> unat right" by (simp add: word_le_nat_alt)
  with bound have ch: "unat (index * 2 + 1) = 2 * unat index + 1"
    by (simp add: unat_double_succ_small)
  have len1: "unat right < length (array_p ?st1)" using len by simp
  have h0: "hole_inv (array_p st) (unat index) (unat right) ?swap (unat index) (array_p ?st1)"
    using ir len by (simp add: hole_inv_def)
  from sift_loop_hole [OF returns(1) len1 bound ch h0]
  have hi: "hole_inv (array_p st) (unat index) (unat right) ?swap ?h (array_p s)" by simp
  show ?thesis
  proof (rule that [of rv ?st'])
    show "ecma_builtin_helper_array_to_heap index right compare_func sort_cb st = Some (Inr (rv, ?st'))"
      by (rule returns(2))
    show "length (array_p ?st') = length (array_p st)" using hi by (simp add: hole_inv_def)
    show "mset (array_p ?st') = mset (array_p st)" using hi by (simp add: hole_inv_def)
    show "array_p ?st' ! j = array_p st ! j" if "j < unat index \<or> unat right < j" for j
      using hi that by (auto simp: hole_inv_def)
    show "rv = ECMA_VALUE_EMPTY \<and> heap_from le (array_p ?st') (unat index) (unat right)"
      if so: "sign_order sort_cb compare_func le"
        and hp: "heap_from le (array_p st) (Suc (unat index)) (unat right)" for le
    proof -
      have "heap_hole le (array_p ?st1) (unat index) (unat right) ?swap (unat index)"
        using heap_hole_init [OF hp] by simp
      from sift_loop_heap [OF so returns(1) len1 bound ch this order_refl ir]
      show ?thesis by simp
    qed
  qed
qed

subsection \<open>The two phases\<close>

lemma heap_root_greatest:
  assumes so: "sign_order sort_cb compare_func le" and hp: "heap_from le A 0 r"
  shows "c \<le> r \<Longrightarrow> le (A ! c) (A ! 0)"
proof (induction c rule: less_induct)
  case (less c)
  show ?case
  proof (cases "c = 0")
    case True
    then show ?thesis by (simp add: sign_order_refl [OF so])
  next
    case False
    let ?p = "(c - 1) div 2"
    from False have pc: "?p < c" by presburger
    from hp False less.prems have "le (A ! c) (A ! ?p)" by (simp add: heap_from_def)
    moreover from less.IH [OF pc] pc less.prems have "le (A ! ?p) (A ! 0)" by simp
    ultimately show ?thesis by (rule sign_order_trans [OF so])
  qed
qed

lemma length_pos_if_less: "n < length A \<Longrightarrow> 0 < length A"
  by (cases A) simp_all

lemma frame_drop:
  assumes "length A' = length A" and "\<And>j. n \<le> j \<Longrightarrow> A' ! j = A ! j"
  shows "drop n A' = drop n A"
  using assms by (intro nth_equalityI) simp_all

lemma mset_take_frame:
  assumes "mset A' = mset A" and "drop n A' = drop n A"
  shows "mset (take n A') = mset (take n A)"
proof -
  have "mset (take n A') + mset (drop n A') = mset (take n A) + mset (drop n A)"
    using assms(1) by (simp flip: mset_append)
  with assms(2) show ?thesis by simp
qed

lemma build_loop_step:
  assumes "0 < i"
  shows "build_loop right compare_func sort_cb i st =
     (case ecma_builtin_helper_array_to_heap (i - 1) right compare_func sort_cb st of
           None \<Rightarrow> None
         | Some (Inl e) \<Rightarrow> Some (Inl e)
         | Some (Inr (value, st1)) \<Rightarrow>
             if value = ECMA_VALUE_ERROR then Some (Inr (Some value, st1))
             else build_loop right compare_func sort_cb (i - 1) st1)"
  using assms by (subst build_loop.simps) simp

lemma build_loop_array:
  assumes "unat i \<le> Suc (unat right)" and "unat right < length (array_p st)"
    and "unat right < 2147483648"
  shows "\<exists>rv st'. build_loop right compare_func sort_cb i st = Some (Inr (rv, st'))
           \<and> length (array_p st') = length (array_p st)
           \<and> mset (array_p st') = mset (array_p st)
           \<and> (\<forall>j. unat right < j \<longrightarrow> array_p st' ! j = array_p st ! j)
           \<and> (\<forall>le. sign_order sort_cb compare_func le \<longrightarrow>
                  heap_from le (array_p st) (unat i) (unat right) \<longrightarrow>
                  rv = None \<and> heap_from le (array_p st') 0 (unat right))"
  using assms
proof (induction "unat i" arbitrary: i st)
  case 0
  then have "unat i = 0" by simp
  then have "i = 0" by (simp only: unat_eq_0)
  then show ?case by (subst build_loop.simps) simp
next
  case (Suc n)
  then have pos: "0 < i" by (auto simp: word_greater_zero_iff)
  then have u: "unat (i - 1) = n" using Suc(2) by (simp add: unat_minus_one word_greater_zero_iff)
  with Suc(2,3) have idx: "i - 1 \<le> right" by (simp add: word_le_nat_alt)
  from idx Suc.prems(2,3) show ?case
  proof (cases rule: to_heap_array [where sort_cb = sort_cb and compare_func = compare_func])
    case (1 rv st1)
    show ?thesis
    proof (cases "rv = ECMA_VALUE_ERROR")
      case True
      have "\<not> (rv = ECMA_VALUE_EMPTY \<and> P)" for P using True by simp
      with 1 True have "\<forall>le. sign_order sort_cb compare_func le \<longrightarrow>
                  heap_from le (array_p st) (unat i) (unat right) \<longrightarrow> False"
        using u Suc(2) by (metis)
      with 1 True show ?thesis by (simp add: build_loop_step [OF pos])
    next
      case False
      have "\<exists>rv' st'. build_loop right compare_func sort_cb (i - 1) st1 = Some (Inr (rv', st'))
           \<and> length (array_p st') = length (array_p st1)
           \<and> mset (array_p st') = mset (array_p st1)
           \<and> (\<forall>j. unat right < j \<longrightarrow> array_p st' ! j = array_p st1 ! j)
           \<and> (\<forall>le. sign_order sort_cb compare_func le \<longrightarrow>
                  heap_from le (array_p st1) (unat (i - 1)) (unat right) \<longrightarrow>
                  rv' = None \<and> heap_from le (array_p st') 0 (unat right))"
        by (rule Suc(1)) (use u Suc.prems Suc(2) 1(2) in auto)
      then obtain rv' st' where r: "build_loop right compare_func sort_cb (i - 1) st1 = Some (Inr (rv', st'))"
           "length (array_p st') = length (array_p st1)"
           "mset (array_p st') = mset (array_p st1)"
           "\<And>j. unat right < j \<Longrightarrow> array_p st' ! j = array_p st1 ! j"
           "\<And>le. sign_order sort_cb compare_func le \<Longrightarrow>
                  heap_from le (array_p st1) (unat (i - 1)) (unat right) \<Longrightarrow>
                  rv' = None \<and> heap_from le (array_p st') 0 (unat right)"
        by blast
      have "build_loop right compare_func sort_cb i st = Some (Inr (rv', st'))"
        using 1(1) False r(1) by (simp add: build_loop_step [OF pos])
      moreover have "rv' = None \<and> heap_from le (array_p st') 0 (unat right)"
        if "sign_order sort_cb compare_func le" "heap_from le (array_p st) (unat i) (unat right)" for le
        using 1(5) [of le] r(5) [of le] that u Suc(2) by simp
      ultimately show ?thesis using r(2,3,4) 1(2,3,4) by auto
    qed
  qed
qed

lemma sort_loop_step:
  assumes "0 < i" and "unat i < length (array_p st)"
  shows "sort_loop compare_func sort_cb i st =
     (case ecma_builtin_helper_array_to_heap 0 (i - 1) compare_func sort_cb (exchanged i st) of
           None \<Rightarrow> None
         | Some (Inl e) \<Rightarrow> Some (Inl e)
         | Some (Inr (value, st5)) \<Rightarrow>
             if value = ECMA_VALUE_ERROR then Some (Inr (Some value, st5))
             else sort_loop compare_func sort_cb (i - 1) st5)"
proof -
  from assms(2) have "0 < length (array_p st)" by (rule length_pos_if_less)
  with assms show ?thesis
    by (subst sort_loop.simps) (simp add: array_get_def array_set_def exchanged_def)
qed

lemma sort_inv_step:
  assumes so: "sign_order sort_cb compare_func le"
    and inv: "sort_inv le A (Suc n)" and len: "Suc n < length A"
    and len2: "length A2 = length A" and ms: "mset A2 = mset (A[0 := A ! Suc n, Suc n := A ! 0])"
    and frame: "\<And>j. n < j \<Longrightarrow> A2 ! j = A[0 := A ! Suc n, Suc n := A ! 0] ! j"
    and hp: "heap_from le A2 0 n"
  shows "sort_inv le A2 n"
proof -
  let ?A1 = "A[0 := A ! Suc n, Suc n := A ! 0]"
  have d: "drop (Suc n) A2 = drop (Suc n) ?A1"
    by (rule frame_drop) (use len2 frame in simp_all)
  have d1: "drop (Suc n) ?A1 = A ! 0 # drop (Suc (Suc n)) A"
    using len by (simp add: drop_update_cancel flip: Cons_nth_drop_Suc)
  have t: "set (take (Suc n) A2) = set (take (Suc n) ?A1)"
    using mset_take_frame [OF ms d] by (rule mset_eq_setD)
  have t1: "set (take (Suc n) ?A1) \<subseteq> set (take (Suc (Suc n)) A)"
  proof
    fix x assume "x \<in> set (take (Suc n) ?A1)"
    then obtain j where j: "j < Suc n" "x = ?A1 ! j" using len
      by (auto simp: in_set_conv_nth)
    moreover from len have "0 < length A" by (rule length_pos_if_less)
    ultimately have "x = A ! (if j = 0 then Suc n else j)" using len by auto
    then show "x \<in> set (take (Suc (Suc n)) A)" using j len
      by (auto simp: in_set_conv_nth intro!: exI [of _ "if j = 0 then Suc n else j"])
  qed
  have root: "le x (A ! 0)" if "x \<in> set (take (Suc (Suc n)) A)" for x
  proof -
    from that len obtain j where "j < Suc (Suc n)" "x = A ! j" by (auto simp: in_set_conv_nth)
    with heap_root_greatest [OF so, of A "Suc n" j] inv show ?thesis by (simp add: sort_inv_def)
  qed
  have low: "le (A ! 0) y" if "y \<in> set (drop (Suc (Suc n)) A)" for y
  proof -
    have "A ! 0 \<in> set (take (Suc (Suc n)) A)" using len by (auto simp: in_set_conv_nth)
    with inv that show ?thesis by (simp add: sort_inv_def)
  qed
  have "sorted_wrt le (drop (Suc n) A2)"
    using inv low by (simp add: d d1 sort_inv_def)
  moreover have "le x y" if "x \<in> set (take (Suc n) A2)" "y \<in> set (drop (Suc n) A2)" for x y
  proof -
    from that(1) t t1 have x: "x \<in> set (take (Suc (Suc n)) A)" by blast
    from that(2) have "y = A ! 0 \<or> y \<in> set (drop (Suc (Suc n)) A)" by (simp add: d d1)
    with x root inv show ?thesis by (auto simp: sort_inv_def)
  qed
  ultimately show ?thesis using hp by (simp add: sort_inv_def)
qed

lemma sort_inv_pre:
  assumes inv: "sort_inv le A (Suc n)" and len: "Suc n < length A"
  shows "heap_from le (A[0 := A ! Suc n, Suc n := A ! 0]) (Suc 0) n"
  unfolding heap_from_def
proof (intro allI impI)
  fix c assume a: "0 < c \<and> c \<le> n \<and> Suc 0 \<le> (c - 1) div 2"
  then have "c \<noteq> 0" "c \<noteq> Suc n" "(c - 1) div 2 \<noteq> 0" "(c - 1) div 2 \<noteq> Suc n" by auto
  moreover from inv a have "le (A ! c) (A ! ((c - 1) div 2))" by (simp add: sort_inv_def heap_from_def)
  ultimately show "le (A[0 := A ! Suc n, Suc n := A ! 0] ! c) (A[0 := A ! Suc n, Suc n := A ! 0] ! ((c - 1) div 2))"
    by simp
qed

lemma sort_inv_final:
  assumes "sort_inv le A 0" and "0 < length A"
  shows "sorted_wrt le A"
proof -
  have "A = take (Suc 0) A @ drop (Suc 0) A" by simp
  moreover have "sorted_wrt le (take (Suc 0) A @ drop (Suc 0) A)"
    unfolding sorted_wrt_append using assms by (auto simp: sort_inv_def take_Suc_conv_app_nth)
  ultimately show ?thesis by simp
qed

lemma sort_loop_array:
  assumes "unat i < length (array_p st)" and "unat i < 2147483648"
  shows "\<exists>rv st'. sort_loop compare_func sort_cb i st = Some (Inr (rv, st'))
           \<and> length (array_p st') = length (array_p st)
           \<and> mset (array_p st') = mset (array_p st)
           \<and> (\<forall>j. unat i < j \<longrightarrow> array_p st' ! j = array_p st ! j)
           \<and> (\<forall>le. sign_order sort_cb compare_func le \<longrightarrow> sort_inv le (array_p st) (unat i) \<longrightarrow>
                  rv = None \<and> sorted_wrt le (array_p st'))"
  using assms
proof (induction "unat i" arbitrary: i st)
  case 0
  then have "unat i = 0" by simp
  then have i: "i = 0" by (simp only: unat_eq_0)
  have "sorted_wrt le (array_p st)" if "sort_inv le (array_p st) 0" for le
    using sort_inv_final [OF that] 0 by simp
  with i show ?case by (subst sort_loop.simps) simp
next
  case (Suc n)
  then have pos: "0 < i" by (auto simp: word_greater_zero_iff)
  then have u: "unat (i - 1) = n" using Suc(2) by (simp add: unat_minus_one word_greater_zero_iff)
  from Suc(2) have ui: "unat i = Suc n" by simp
  let ?A = "array_p st"
  let ?A1 = "?A[0 := ?A ! Suc n, Suc n := ?A ! 0]"
  have A1: "array_p (exchanged i st) = ?A1" by (simp add: exchanged_def ui)
  have b: "(0 :: uint32) \<le> i - 1" "unat (i - 1) < length (array_p (exchanged i st))"
    "unat (i - 1) < 2147483648"
    using u Suc.prems ui by (simp_all add: A1)
  from b show ?case
  proof (cases rule: to_heap_array [where sort_cb = sort_cb and compare_func = compare_func])
    case (1 rv st1)
    note step = sort_loop_step [OF pos Suc.prems(1), of compare_func sort_cb]
    have ms: "mset ?A1 = mset ?A"
      by (rule mset_swap) (use Suc.prems(1) ui length_pos_if_less [of "Suc n" ?A] in simp_all)
    have fr: "array_p st1 ! j = ?A ! j" if "Suc n < j" for j
      using 1(4) [of j] that u by (simp add: A1)
    show ?thesis
    proof (cases "rv = ECMA_VALUE_ERROR")
      case True
      have "\<not> sort_inv le ?A (Suc n)" if so: "sign_order sort_cb compare_func le" for le
      proof
        assume "sort_inv le ?A (Suc n)"
        from sort_inv_pre [OF this] Suc.prems(1) ui
        have "heap_from le (array_p (exchanged i st)) (Suc (unat (0 :: uint32))) (unat (i - 1))"
          by (simp add: A1 u)
        from 1(5) [OF so this] True show False by simp
      qed
      with 1 True ms fr show ?thesis by (simp add: step A1 ui)
    next
      case False
      have "\<exists>rv' st'. sort_loop compare_func sort_cb (i - 1) st1 = Some (Inr (rv', st'))
           \<and> length (array_p st') = length (array_p st1)
           \<and> mset (array_p st') = mset (array_p st1)
           \<and> (\<forall>j. unat (i - 1) < j \<longrightarrow> array_p st' ! j = array_p st1 ! j)
           \<and> (\<forall>le. sign_order sort_cb compare_func le \<longrightarrow> sort_inv le (array_p st1) (unat (i - 1)) \<longrightarrow>
                  rv' = None \<and> sorted_wrt le (array_p st'))"
        by (rule Suc(1)) (use u b 1(2) in auto)
      then obtain rv' st' where r: "sort_loop compare_func sort_cb (i - 1) st1 = Some (Inr (rv', st'))"
           "length (array_p st') = length (array_p st1)"
           "mset (array_p st') = mset (array_p st1)"
           "\<And>j. n < j \<Longrightarrow> array_p st' ! j = array_p st1 ! j"
           "\<And>le. sign_order sort_cb compare_func le \<Longrightarrow> sort_inv le (array_p st1) n \<Longrightarrow>
                  rv' = None \<and> sorted_wrt le (array_p st')"
        unfolding u by blast
      have "sort_loop compare_func sort_cb i st = Some (Inr (rv', st'))"
        using 1(1) False r(1) by (simp add: step)
      moreover have "rv' = None \<and> sorted_wrt le (array_p st')"
        if so: "sign_order sort_cb compare_func le" and inv: "sort_inv le ?A (Suc n)" for le
      proof -
        from sort_inv_pre [OF inv] Suc.prems(1) ui
        have "heap_from le (array_p (exchanged i st)) (Suc (unat (0 :: uint32))) (unat (i - 1))"
          by (simp add: A1 u)
        from 1(5) [OF so this] have hp: "heap_from le (array_p st1) 0 n" by (simp add: u)
        have "sort_inv le (array_p st1) n"
          using so inv _ _ _ _ hp
        proof (rule sort_inv_step)
          show "Suc n < length ?A" using Suc.prems(1) ui by simp
          show "length (array_p st1) = length ?A" using 1(2) by (simp add: A1)
          show "mset (array_p st1) = mset ?A1" using 1(3) by (simp add: A1)
          show "array_p st1 ! j = ?A1 ! j" if "n < j" for j
            using 1(4) [of j] that u by (simp add: A1)
        qed
        from r(5) [OF so this] show ?thesis .
      qed
      moreover have "array_p st' ! j = ?A ! j" if "Suc n < j" for j
        using r(4) [of j] fr [of j] that by simp
      ultimately show ?thesis using r(2,3) 1(2,3) ms by (simp add: A1 ui)
    qed
  qed
qed

subsection \<open>Events\<close>

lemma outcomes_append [simp]: "outcomes (xs @ ys) = outcomes xs @ outcomes ys"
  by (induction xs rule: outcomes.induct) simp_all

lemma accessed_append [simp]: "accessed (xs @ ys) = accessed xs @ accessed ys"
  by (induction xs rule: accessed.induct) simp_all

lemma calm_Nil [simp]: "calm right []"
  by (simp add: calm_def)

lemma calm_append: "calm right xs \<Longrightarrow> calm right ys \<Longrightarrow> calm right (xs @ ys)"
  by (auto simp: calm_def)

lemma calm_mono: "calm r xs \<Longrightarrow> r \<le> right \<Longrightarrow> calm right xs"
  by (auto simp: calm_def)

lemma aborted_mono: "aborted r xs \<Longrightarrow> r \<le> right \<Longrightarrow> aborted right xs"
  unfolding aborted_def using calm_mono by blast

lemma calm_aborted: "calm right xs \<Longrightarrow> aborted right ys \<Longrightarrow> aborted right (xs @ ys)"
  unfolding aborted_def
  by (metis append.assoc calm_append)

lemma aborted_calm:
  assumes "aborted right xs" and "calm right ys" and "outcomes ys = []"
  shows "aborted right (xs @ ys)"
proof -
  from assms(1) obtain xs' a b zs where x: "xs = xs' @ Invoke a b COMPARE_ERROR # zs"
    "calm right xs'" "calm right zs" "outcomes zs = []" unfolding aborted_def by blast
  then have "xs @ ys = xs' @ Invoke a b COMPARE_ERROR # (zs @ ys)" by simp
  moreover have "calm right (zs @ ys)" using x(3) assms(2) by (rule calm_append)
  moreover have "outcomes (zs @ ys) = []" using x(4) assms(3) by simp
  ultimately show ?thesis using x(2) unfolding aborted_def by blast
qed

lemma aborted_single: "calm right xs \<Longrightarrow> aborted right (xs @ [Invoke a b COMPARE_ERROR])"
  unfolding aborted_def by (metis calm_Nil outcomes.simps(1))

lemma calm_read: "i \<le> right \<Longrightarrow> calm right [Read i]"
  by (simp add: calm_def)

lemma calm_write: "i \<le> right \<Longrightarrow> calm right [Write i v]"
  by (simp add: calm_def)

lemma calm_child_compare:
  "c < right \<Longrightarrow> unat (c + 1) \<le> unat right \<Longrightarrow>
     calm right [Read c, Read (c + 1), Invoke a b (COMPARE_NUMBER n), Release n]"
  by (simp add: calm_def word_le_nat_alt word_less_nat_alt)

lemma calm_shift:
  "c \<le> right \<Longrightarrow> c \<noteq> 0 \<Longrightarrow>
     calm right [Read c, Invoke a b (COMPARE_NUMBER n), Read c, Write ((c - 1) div 2) v, Release n]"
  by (simp add: calm_def parent_le)

lemma calm_settle:
  "c \<le> right \<Longrightarrow> calm right [Read c, Invoke a b (COMPARE_NUMBER n), Release n]"
  by (simp add: calm_def)

lemma picked_trace:
  assumes "picked sort_cb compare_func right child st child1 st1" and "child \<le> right"
  shows "\<exists>evs. trace st1 = trace st @ evs \<and> calm right evs"
proof (cases "child < right")
  case True
  then have "unat (child + 1) \<le> unat right"
    using unat_succ_below [OF True] by (simp add: word_less_nat_alt)
  from calm_child_compare [OF True this] assms(1) True show ?thesis
    by (auto simp: picked_def)
next
  case False
  with assms(1) show ?thesis by (auto simp: picked_def)
qed

lemma sift_loop_events:
  assumes run: "sift_loop sort_cb compare_func right swap child ECMA_VALUE_EMPTY st = Some res"
    and len: "unat right < length (array_p st)" and nz: "child \<noteq> 0"
  shows "\<exists>rv c s evs. res = Inr (rv, c, s) \<and> trace s = trace st @ evs \<and> finished right rv evs"
proof (rule sift_loop_cases_rule [OF run len nz, where
        I = "\<lambda>c s. \<exists>evs. trace s = trace st @ evs \<and> calm right evs"], goal_cases)
  case 1
  show ?case by simp
next
  case (2 child st' child1 st1 n rt)
  from 2(1) obtain evs where e: "trace st' = trace st @ evs" "calm right evs" by blast
  from picked_trace [OF 2(5) 2(2)] obtain pk where p: "trace st1 = trace st' @ pk" "calm right pk" by blast
  note b = picked_bounds [OF 2(5) 2(2,3)]
  have "calm right (evs @ pk @ [Read child1, Invoke (array_p st' ! unat child1) swap (COMPARE_NUMBER n),
      Read child1, Write ((child1 - 1) div 2) (array_p st' ! unat child1), Release n])"
    by (intro calm_append e p calm_shift b)
  with e p show ?case by simp
next
  case (3 child st' rt)
  from 3(1) obtain evs where e: "trace st' = trace st @ evs" "calm right evs" by blast
  have "unat (child + 1) \<le> unat right"
    using unat_succ_below [OF 3(5)] 3(5) by (simp add: word_less_nat_alt)
  then have "child + 1 \<le> right" by (simp add: word_le_nat_alt)
  then have "calm right (evs @ [Read child, Read (child + 1)])"
    using e(2) 3(2) by (simp add: calm_def)
  from aborted_single [OF this] e(1) show ?case by (simp add: finished_def)
next
  case (4 child st' child1 st1 rt)
  from 4(1) obtain evs where e: "trace st' = trace st @ evs" "calm right evs" by blast
  from picked_trace [OF 4(5) 4(2)] obtain pk where p: "trace st1 = trace st' @ pk" "calm right pk" by blast
  note b = picked_bounds [OF 4(5) 4(2,3)]
  have "calm right ((evs @ pk) @ [Read child1])"
    by (intro calm_append e p calm_read b)
  from aborted_single [OF this] e(1) p(1) show ?case by (simp add: finished_def)
next
  case (5 child st' child1 st1 n rt)
  from 5(1) obtain evs where e: "trace st' = trace st @ evs" "calm right evs" by blast
  from picked_trace [OF 5(5) 5(2)] obtain pk where p: "trace st1 = trace st' @ pk" "calm right pk" by blast
  note b = picked_bounds [OF 5(5) 5(2,3)]
  have "calm right (evs @ pk @ [Read child1, Invoke (array_p st' ! unat child1) swap (COMPARE_NUMBER n),
      Release n])"
    by (intro calm_append e p calm_settle b)
  with e p show ?case by (simp add: finished_def)
next
  case (6 child st')
  then show ?case by (auto simp: finished_def)
qed

lemma finished_wrap:
  assumes "finished right rv evs" and "calm right xs" and "calm right ys" and "outcomes ys = []"
  shows "finished right rv (xs @ evs @ ys)"
proof (cases rv)
  case ECMA_VALUE_EMPTY
  with assms show ?thesis by (simp add: finished_def calm_append)
next
  case ECMA_VALUE_ERROR
  with assms have "aborted right (evs @ ys)" by (simp add: finished_def aborted_calm)
  from calm_aborted [OF assms(2) this] ECMA_VALUE_ERROR show ?thesis by (simp add: finished_def)
qed

text \<open>Every call of the sift-down routine that returns does so without a fault, and its events are in order.\<close>

lemma to_heap_events:
  assumes idx: "index \<le> right" and len: "unat right < length (array_p st)"
    and run: "ecma_builtin_helper_array_to_heap index right compare_func sort_cb st = Some res"
  shows "\<exists>rv st' evs. res = Inr (rv, st') \<and> trace st' = trace st @ evs \<and> finished right rv evs
           \<and> length (array_p st') = length (array_p st)"
  using idx len
proof (cases rule: to_heap_cases [where sort_cb = sort_cb and compare_func = compare_func])
  case diverges
  with run show ?thesis by simp
next
  case (returns rv c s)
  from sift_loop_events [OF returns(1) _ double_succ_nz] len
  obtain evs where e: "trace s = trace st @ [Read index] @ evs" "finished right rv evs" by auto
  have "finished right rv ([Read index] @ evs @ [Write ((c - 1) div 2) (array_p st ! unat index)])"
    using e(2) by (rule finished_wrap) (simp_all add: calm_read calm_write idx returns(4))
  with returns(2,5) run e(1) show ?thesis by simp
qed

lemma finished_mono: "finished r rv evs \<Longrightarrow> r \<le> right \<Longrightarrow> finished right rv evs"
  by (cases rv) (auto simp: finished_def intro: calm_mono aborted_mono)

lemma loop_finished_prepend:
  "calm right xs \<Longrightarrow> loop_finished right rvo evs \<Longrightarrow> loop_finished right rvo (xs @ evs)"
  by (cases rvo) (auto simp: loop_finished_def intro: calm_append calm_aborted)

lemma build_loop_events:
  assumes "unat i \<le> Suc (unat right)" and "unat right < length (array_p st)"
    and "build_loop right compare_func sort_cb i st = Some res"
  shows "\<exists>rvo st' evs. res = Inr (rvo, st') \<and> trace st' = trace st @ evs
           \<and> loop_finished right rvo evs \<and> length (array_p st') = length (array_p st)"
  using assms
proof (induction "unat i" arbitrary: i st)
  case 0
  then have "unat i = 0" by simp
  then have "i = 0" by (simp only: unat_eq_0)
  with 0(4) show ?case by (subst (asm) build_loop.simps) (auto simp: loop_finished_def)
next
  case (Suc n)
  then have pos: "0 < i" by (auto simp: word_greater_zero_iff)
  then have u: "unat (i - 1) = n" using Suc(2) by (simp add: unat_minus_one word_greater_zero_iff)
  with Suc(2,3) have idx: "i - 1 \<le> right" by (simp add: word_le_nat_alt)
  note step = build_loop_step [OF pos, of right compare_func sort_cb st]
  show ?case
  proof (cases "ecma_builtin_helper_array_to_heap (i - 1) right compare_func sort_cb st")
    case None
    with Suc.prems(3) step show ?thesis by simp
  next
    case (Some r1)
    from to_heap_events [OF idx Suc.prems(2) Some]
    obtain rv st1 evs where r1: "r1 = Inr (rv, st1)" "trace st1 = trace st @ evs"
      "finished right rv evs" "length (array_p st1) = length (array_p st)" by blast
    show ?thesis
    proof (cases "rv = ECMA_VALUE_ERROR")
      case True
      with Some r1 Suc.prems(3) step show ?thesis
        by (auto simp: loop_finished_def finished_def)
    next
      case False
      then have rv: "rv = ECMA_VALUE_EMPTY" by (cases rv) simp_all
      from Some r1 Suc.prems(3) step False
      have "build_loop right compare_func sort_cb (i - 1) st1 = Some res" by simp
      with Suc(1) [of "i - 1" st1] u Suc.prems Suc(2) r1(4)
      obtain rvo st' evs' where r: "res = Inr (rvo, st')" "trace st' = trace st1 @ evs'"
        "loop_finished right rvo evs'" "length (array_p st') = length (array_p st1)" by auto
      from r1(3) rv have "calm right evs" by (simp add: finished_def)
      from loop_finished_prepend [OF this r(3)] r r1 show ?thesis by simp
    qed
  qed
qed

lemma calm_exchange: "i \<le> right \<Longrightarrow> calm right [Read 0, Read i, Write 0 x, Write i y]"
  by (simp add: calm_def)

lemma sort_loop_events:
  assumes "i \<le> right" and "unat i < length (array_p st)"
    and "sort_loop compare_func sort_cb i st = Some res"
  shows "\<exists>rvo st' evs. res = Inr (rvo, st') \<and> trace st' = trace st @ evs
           \<and> loop_finished right rvo evs \<and> length (array_p st') = length (array_p st)"
  using assms
proof (induction "unat i" arbitrary: i st)
  case 0
  then have "unat i = 0" by simp
  then have "i = 0" by (simp only: unat_eq_0)
  with 0(4) show ?case by (subst (asm) sort_loop.simps) (auto simp: loop_finished_def)
next
  case (Suc n)
  then have pos: "0 < i" by (auto simp: word_greater_zero_iff)
  then have u: "unat (i - 1) = n" using Suc(2) by (simp add: unat_minus_one word_greater_zero_iff)
  from Suc(2) have ui: "unat i = Suc n" by simp
  note step = sort_loop_step [OF pos Suc.prems(2), of compare_func sort_cb]
  have lx: "length (array_p (exchanged i st)) = length (array_p st)" by (simp add: exchanged_def)
  have tx: "trace (exchanged i st) = trace st @
      [Read 0, Read i, Write 0 (array_p st ! unat i), Write i (array_p st ! 0)]"
    by (simp add: exchanged_def)
  have le: "i - 1 \<le> right" using Suc.prems(1) u ui by (simp add: word_le_nat_alt)
  have b: "(0 :: uint32) \<le> i - 1" "unat (i - 1) < length (array_p (exchanged i st))"
    using u Suc.prems ui by (simp_all add: lx)
  show ?case
  proof (cases "ecma_builtin_helper_array_to_heap 0 (i - 1) compare_func sort_cb (exchanged i st)")
    case None
    with Suc.prems(3) step show ?thesis by simp
  next
    case (Some r1)
    from to_heap_events [OF b Some]
    obtain rv st1 evs where r1: "r1 = Inr (rv, st1)" "trace st1 = trace (exchanged i st) @ evs"
      "finished (i - 1) rv evs" "length (array_p st1) = length (array_p (exchanged i st))" by blast
    from finished_mono [OF r1(3) le] have f: "finished right rv evs" .
    note cx = calm_exchange [OF Suc.prems(1), of "array_p st ! unat i" "array_p st ! 0"]
    show ?thesis
    proof (cases "rv = ECMA_VALUE_ERROR")
      case True
      with f have "aborted right evs" by (simp add: finished_def)
      from calm_aborted [OF cx this] Some r1 Suc.prems(3) step True tx lx show ?thesis
        by (auto simp: loop_finished_def)
    next
      case False
      then have rv: "rv = ECMA_VALUE_EMPTY" by (cases rv) simp_all
      from Some r1 Suc.prems(3) step False
      have "sort_loop compare_func sort_cb (i - 1) st1 = Some res" by simp
      with Suc(1) [of "i - 1" st1] u le b r1(4)
      obtain rvo st' evs' where r: "res = Inr (rvo, st')" "trace st' = trace st1 @ evs'"
        "loop_finished right rvo evs'" "length (array_p st') = length (array_p st1)" by auto
      from f rv have "calm right evs" by (simp add: finished_def)
      from loop_finished_prepend [OF calm_append [OF cx this] r(3)] r r1 tx lx show ?thesis by simp
    qed
  qed
qed

lemma unat_half_succ: "unat ((right :: uint32) div 2 + 1) = Suc (unat right div 2)"
proof -
  have "unat right < 4294967296" by (rule unat_lt_max)
  then have "unat right div 2 + 1 < 4294967296" by simp
  then show ?thesis by (simp add: unat_word_ariths unat_div)
qed

lemma helper_events:
  assumes len: "length (array_p st) = Suc (unat right)"
    and run: "ecma_builtin_helper_array_heap_sort_helper right compare_func sort_cb st = Some res"
  shows "\<exists>rv st' evs. res = Inr (rv, st') \<and> trace st' = trace st @ evs \<and> finished right rv evs
           \<and> length (array_p st') = length (array_p st)"
proof (cases "build_loop right compare_func sort_cb (right div 2 + 1) st")
  case None
  with run show ?thesis by (simp add: ecma_builtin_helper_array_heap_sort_helper_def)
next
  case (Some r1)
  have "unat (right div 2 + 1) \<le> Suc (unat right)" by (simp add: unat_half_succ)
  from build_loop_events [OF this _ Some] len
  obtain rvo st1 evs where r1: "r1 = Inr (rvo, st1)" "trace st1 = trace st @ evs"
    "loop_finished right rvo evs" "length (array_p st1) = length (array_p st)" by auto
  show ?thesis
  proof (cases rvo)
    case (Some v)
    with r1 run \<open>build_loop right compare_func sort_cb (right div 2 + 1) st = Some r1\<close>
    show ?thesis
      by (auto simp: ecma_builtin_helper_array_heap_sort_helper_def loop_finished_def finished_def)
  next
    case None
    show ?thesis
    proof (cases "sort_loop compare_func sort_cb right st1")
      case n2: None
      with None r1 run \<open>build_loop right compare_func sort_cb (right div 2 + 1) st = Some r1\<close>
      show ?thesis by (simp add: ecma_builtin_helper_array_heap_sort_helper_def)
    next
      case (Some r2)
      have "unat right < length (array_p st1)" using r1(4) len by simp
      from sort_loop_events [OF order_refl this Some]
      obtain rvo' st' evs' where r2: "r2 = Inr (rvo', st')" "trace st' = trace st1 @ evs'"
        "loop_finished right rvo' evs'" "length (array_p st') = length (array_p st1)" by blast
      from r1(3) None have "calm right evs" by (simp add: loop_finished_def)
      from loop_finished_prepend [OF this r2(3)] have "loop_finished right rvo' (evs @ evs')" .
      with None r1 r2 Some run \<open>build_loop right compare_func sort_cb (right div 2 + 1) st = Some r1\<close>
      show ?thesis
        by (cases rvo') (auto simp: ecma_builtin_helper_array_heap_sort_helper_def loop_finished_def finished_def)
    qed
  qed
qed

subsection \<open>The sort routine\<close>

lemma heap_from_leaves: "heap_from le A (Suc (r div 2)) r"
  unfolding heap_from_def
proof (intro allI impI)
  fix c assume "0 < c \<and> c \<le> r \<and> Suc (r div 2) \<le> (c - 1) div 2"
  then have False by presburger
  then show "le (A ! c) (A ! ((c - 1) div 2))" ..
qed

lemma sort_inv_start:
  assumes "heap_from le A 0 r" and "length A = Suc r"
  shows "sort_inv le A r"
  using assms by (simp add: sort_inv_def)

lemma helper_array:
  assumes len: "length (array_p st) = Suc (unat right)" and bound: "unat right < 2147483648"
  shows "\<exists>rv st'. ecma_builtin_helper_array_heap_sort_helper right compare_func sort_cb st
             = Some (Inr (rv, st'))
           \<and> length (array_p st') = length (array_p st)
           \<and> mset (array_p st') = mset (array_p st)
           \<and> (\<forall>le. sign_order sort_cb compare_func le \<longrightarrow>
                  rv = ECMA_VALUE_EMPTY \<and> sorted_wrt le (array_p st'))"
proof -
  have i: "unat (right div 2 + 1) \<le> Suc (unat right)" by (simp add: unat_half_succ)
  have l: "unat right < length (array_p st)" using len by simp
  from build_loop_array [OF i l bound, of compare_func sort_cb]
  obtain rvo st1 where b: "build_loop right compare_func sort_cb (right div 2 + 1) st = Some (Inr (rvo, st1))"
    "length (array_p st1) = length (array_p st)" "mset (array_p st1) = mset (array_p st)"
    "\<And>le. sign_order sort_cb compare_func le \<Longrightarrow>
        heap_from le (array_p st) (unat (right div 2 + 1)) (unat right) \<Longrightarrow>
        rvo = None \<and> heap_from le (array_p st1) 0 (unat right)"
    by blast
  have hp: "rvo = None \<and> heap_from le (array_p st1) 0 (unat right)"
    if "sign_order sort_cb compare_func le" for le
    using b(4) [OF that] heap_from_leaves [of le "array_p st" "unat right"]
    by (simp add: unat_half_succ)
  show ?thesis
  proof (cases rvo)
    case (Some v)
    with hp have "\<not> sign_order sort_cb compare_func le" for le by auto
    with Some b show ?thesis by (simp add: ecma_builtin_helper_array_heap_sort_helper_def)
  next
    case None
    have l1: "unat right < length (array_p st1)" using b(2) len by simp
    from sort_loop_array [OF l1 bound, of compare_func sort_cb]
    obtain rvo' st' where s: "sort_loop compare_func sort_cb right st1 = Some (Inr (rvo', st'))"
      "length (array_p st') = length (array_p st1)" "mset (array_p st') = mset (array_p st1)"
      "\<And>le. sign_order sort_cb compare_func le \<Longrightarrow> sort_inv le (array_p st1) (unat right) \<Longrightarrow>
          rvo' = None \<and> sorted_wrt le (array_p st')"
      by blast
    have srt: "rvo' = None \<and> sorted_wrt le (array_p st')" if so: "sign_order sort_cb compare_func le" for le
    proof -
      from hp [OF so] have "heap_from le (array_p st1) 0 (unat right)" by simp
      then have "sort_inv le (array_p st1) (unat right)"
        by (rule sort_inv_start) (use b(2) len in simp)
      from s(4) [OF so this] show ?thesis .
    qed
    show ?thesis
    proof (cases rvo')
      case n2: None
      with None b s srt show ?thesis by (simp add: ecma_builtin_helper_array_heap_sort_helper_def)
    next
      case (Some v)
      with srt have "\<not> sign_order sort_cb compare_func le" for le by auto
      with Some None b s show ?thesis by (simp add: ecma_builtin_helper_array_heap_sort_helper_def)
    qed
  qed
qed

subsection \<open>What the events of a finished call say\<close>

lemma issued_append: "trace st' = trace st @ evs \<Longrightarrow> issued st st' = evs"
  by (simp add: issued_def)

lemma calm_accessed: "calm right evs \<Longrightarrow> i \<in> set (accessed evs) \<Longrightarrow> i \<le> right"
  by (simp add: calm_def)

lemma finished_accessed:
  assumes "finished right rv evs" and "i \<in> set (accessed evs)"
  shows "i \<le> right"
proof (cases rv)
  case ECMA_VALUE_EMPTY
  with assms show ?thesis by (simp add: finished_def calm_accessed)
next
  case ECMA_VALUE_ERROR
  with assms(1) obtain xs a b ys where "evs = xs @ Invoke a b COMPARE_ERROR # ys"
    "calm right xs" "calm right ys" by (auto simp: finished_def aborted_def)
  with assms(2) show ?thesis by (auto simp: calm_accessed)
qed

lemma finished_released:
  assumes "finished right rv evs"
  shows "released_exactly_once evs"
proof (cases rv)
  case ECMA_VALUE_EMPTY
  with assms show ?thesis by (simp add: finished_def calm_def released_exactly_once_def)
next
  case ECMA_VALUE_ERROR
  with assms(1) obtain xs a b ys where "evs = xs @ Invoke a b COMPARE_ERROR # ys"
    "calm right xs" "calm right ys" by (auto simp: finished_def aborted_def)
  then show ?thesis by (simp add: calm_def released_exactly_once_def)
qed

lemma finished_outcomes:
  assumes "finished right rv evs"
  shows "COMPARE_ERROR \<notin> set (butlast (outcomes evs))
     \<and> (rv = ECMA_VALUE_ERROR \<longleftrightarrow> COMPARE_ERROR \<in> set (outcomes evs))"
proof (cases rv)
  case ECMA_VALUE_EMPTY
  with assms have "COMPARE_ERROR \<notin> set (outcomes evs)" by (simp add: finished_def calm_def)
  with ECMA_VALUE_EMPTY show ?thesis by (auto dest: in_set_butlastD)
next
  case ECMA_VALUE_ERROR
  with assms(1) obtain xs a b ys where "evs = xs @ Invoke a b COMPARE_ERROR # ys"
    "calm right xs" "outcomes ys = []" by (auto simp: finished_def aborted_def)
  then have "outcomes evs = outcomes xs @ [COMPARE_ERROR]" "COMPARE_ERROR \<notin> set (outcomes xs)"
    by (simp_all add: calm_def)
  with ECMA_VALUE_ERROR show ?thesis by simp
qed

subsection \<open>Examples\<close>

lemma length_huge: "length huge_array = 2147483649"
  by (simp add: huge_array_def)

lemma huge_nonempty: "huge_array \<noteq> []"
  by (simp add: huge_array_def)

lemma nth_huge: "i \<le> 2147483648 \<Longrightarrow> huge_array ! i = (if i = 2147483648 then 1 else 0)"
  by (auto simp: huge_array_def nth_append)

lemma count_huge: "count (mset huge_array) 1 = 1"
  by (simp add: huge_array_def)

lemma length_full: "length full_array = 4294967295"
  by (simp add: full_array_def)

lemma full_nonempty: "full_array \<noteq> []"
  by (simp add: full_array_def)

lemma nth_full: "i \<le> 4294967294 \<Longrightarrow> full_array ! i = (if i = 4294967294 then 1 else 0)"
  by (auto simp: full_array_def nth_append)

lemma sign_order_difference: "sign_order difference_cb compare_func (\<le>)"
  by (auto simp: sign_order_def difference_cb_def)

text \<open>
  With \<^verbatim>\<open>right = 0xFFFFFFFE\<close> and \<^verbatim>\<open>child = 0xFFFFFFFD\<close>, when the right sibling is chosen and is
  greater than \<^verbatim>\<open>swap\<close>, the update \<^verbatim>\<open>child = child * 2 + 1\<close> wraps around to \<^verbatim>\<open>0xFFFFFFFD\<close>
  again: the loop never ends.
\<close>

lemma sift_loop_diverges:
  assumes len: "length (array_p st) = 4294967295"
    and left: "array_p st ! 4294967293 = (0 :: int)" and last: "array_p st ! 4294967294 = (1 :: int)"
  shows "sift_loop difference_cb compare_func 4294967294 0 4294967293 ret_value st = None"
proof (cases "sift_loop difference_cb compare_func 4294967294 0 4294967293 ret_value st")
  case None
  then show ?thesis .
next
  case (Some res)
  have False
  proof (rule sift_loop_rule [OF Some, where
        I = "\<lambda>c s. c = 4294967293 \<and> length (array_p s) = 4294967295
               \<and> array_p s ! 4294967293 = 0 \<and> array_p s ! 4294967294 = 1"
        and Q = "\<lambda>_. False"], goal_cases)
    case 1
    from len left last show ?case by simp
  next
    case (2 c s c' s')
    then show ?case
      by (auto simp: sift_iteration_def compare_children_def compare_with_swap_def array_get_def
          array_set_def call_sort_cb_def ecma_free_value_def difference_cb_def)
  next
    case (3 c s r c' s')
    then show ?case
      by (auto simp: sift_iteration_def compare_children_def compare_with_swap_def array_get_def
          array_set_def call_sort_cb_def ecma_free_value_def difference_cb_def)
  next
    case (4 c s e)
    then show ?case
      by (auto simp: sift_iteration_def compare_children_def compare_with_swap_def array_get_def
          array_set_def call_sort_cb_def ecma_free_value_def difference_cb_def)
  next
    case (5 c s)
    then show ?case by simp
  qed
  then show ?thesis ..
qed

text \<open>
  On \<open>full_array\<close> the first phase starts with \<open>i = 2 ^ 31\<close>. The call for index \<open>2 ^ 31 - 1\<close> has
  no child to look at; the call for index \<open>2 ^ 31 - 2\<close> never returns.
\<close>

lemma to_heap_leaf:
  "ecma_builtin_helper_array_to_heap 2147483647 4294967294 0 difference_cb (start full_array)
     = Some (Inr (ECMA_VALUE_EMPTY,
         (start full_array)\<lparr>trace := [Read 2147483647, Write 2147483647 0]\<rparr>))"
  by (simp add: ecma_builtin_helper_array_to_heap_def sift_loop.simps array_get_def array_set_def
      start_def length_full nth_full full_nonempty list_update_same_conv)

lemma to_heap_diverges:
  "ecma_builtin_helper_array_to_heap 2147483646 4294967294 0 difference_cb
     ((start full_array)\<lparr>trace := [Read 2147483647, Write 2147483647 0]\<rparr>) = None"
proof (rule to_heap_None)
  let ?st = "(start full_array)\<lparr>trace := [Read 2147483647, Write 2147483647 0]\<rparr>"
  show "(2147483646 :: uint32) \<le> 4294967294" by simp
  show "unat (4294967294 :: uint32) < length (array_p ?st)"
    by (simp add: start_def length_full)
  have "sift_loop difference_cb 0 4294967294 0 4294967293 ECMA_VALUE_EMPTY
          (?st\<lparr>trace := trace ?st @ [Read 2147483646]\<rparr>) = None"
    by (rule sift_loop_diverges) (simp_all add: start_def length_full nth_full)
  then show "sift_loop difference_cb 0 4294967294 (array_p ?st ! unat (2147483646 :: uint32))
          (2147483646 * 2 + 1) ECMA_VALUE_EMPTY
          (?st\<lparr>trace := trace ?st @ [Read 2147483646]\<rparr>) = None"
    by (simp add: start_def nth_full)
qed

lemma build_loop_diverges:
  "build_loop 4294967294 0 difference_cb 2147483648 (start full_array) = None"
proof -
  have "build_loop 4294967294 0 difference_cb 2147483647
      ((start full_array)\<lparr>trace := [Read 2147483647, Write 2147483647 0]\<rparr>) = None"
    using to_heap_diverges by (simp add: build_loop_step)
  with to_heap_leaf show ?thesis by (simp add: build_loop_step)
qed

text \<open>
  The two worked examples of the specification: \<open>[3, 1, 4, 1, 5]\<close> with the difference as
  comparator is sorted to \<open>[1, 1, 3, 4, 5]\<close>; when the second invocation fails, the routine
  returns the error and leaves a permutation of the input.
\<close>

lemma worked_example:
  "\<exists>st'. ecma_builtin_helper_array_heap_sort_helper 4 0 difference_cb (start [3, 1, 4, 1, 5])
           = Some (Inr (ECMA_VALUE_EMPTY, st'))
         \<and> array_p st' = [1, 1, 3, 4, 5]"
  by (simp add: ecma_builtin_helper_array_heap_sort_helper_def build_loop.simps sort_loop.simps
      ecma_builtin_helper_array_to_heap_def sift_loop.simps sift_iteration_def
      compare_children_def compare_with_swap_def array_get_def array_set_def
      call_sort_cb_def ecma_free_value_def difference_cb_def start_def)

lemma worked_failure_example:
  "\<exists>st'. ecma_builtin_helper_array_heap_sort_helper 4 0 (failing_cb 1) (start [3, 1, 4, 1, 5])
           = Some (Inr (ECMA_VALUE_ERROR, st'))
         \<and> array_p st' = [3, 1, 4, 1, 5] \<and> outcomes (trace st') = [COMPARE_NUMBER (- 4), COMPARE_ERROR]"
  by (simp add: ecma_builtin_helper_array_heap_sort_helper_def build_loop.simps sort_loop.simps
      ecma_builtin_helper_array_to_heap_def sift_loop.simps sift_iteration_def
      compare_children_def compare_with_swap_def array_get_def array_set_def
      call_sort_cb_def ecma_free_value_def failing_cb_def start_def)

subsection \<open>Runs that have not returned\<close>

text \<open>
  The functions with a bound agree with the functions without: a bounded run that is done
  has the result of the unbounded one, a greater bound does not change it, and every result
  of the unbounded function is reached within some bound.
\<close>

lemma sift_loop_upto_Done:
  "sift_loop_upto n sort_cb compare_func right swap child ret_value st = Done res \<Longrightarrow>
   sift_loop sort_cb compare_func right swap child ret_value st = Some res"
proof (induction n arbitrary: child st)
  case 0
  then show ?case by simp
next
  case (Suc n)
  then show ?case
    by (subst sift_loop.simps) (auto split: if_splits sum.splits iteration.splits)
qed

lemma sift_loop_upto_mono:
  "sift_loop_upto n sort_cb compare_func right swap child ret_value st = Done res \<Longrightarrow>
   sift_loop_upto (n + k) sort_cb compare_func right swap child ret_value st = Done res"
proof (induction n arbitrary: child st)
  case 0
  then show ?case by simp
next
  case (Suc n)
  then show ?case by (auto split: if_splits sum.splits iteration.splits)
qed

lemma sift_loop_upto_complete:
  assumes "sift_loop sort_cb compare_func right swap child ret_value st = Some res"
  shows "\<exists>n. sift_loop_upto n sort_cb compare_func right swap child ret_value st = Done res"
proof (rule sift_loop.raw_induct [where P = "\<lambda>cb cf r sw c rv s res.
          \<exists>n. sift_loop_upto n cb cf r sw c rv s = Done res", OF _ assms], goal_cases)
  case (1 f cb cf r sw c rv s y)
  show ?case
  proof (cases "c \<le> r")
    case False
    with 1(2) have "sift_loop_upto (Suc 0) cb cf r sw c rv s = Done y" by simp
    then show ?thesis ..
  next
    case True
    show ?thesis
    proof (cases "sift_iteration cb cf r sw c rv s")
      case (Inl e)
      with 1(2) True have "sift_loop_upto (Suc 0) cb cf r sw c rv s = Done y" by simp
      then show ?thesis ..
    next
      case (Inr it)
      show ?thesis
      proof (cases it)
        case (Break r' c' s')
        with 1(2) True Inr have "sift_loop_upto (Suc 0) cb cf r sw c rv s = Done y" by simp
        then show ?thesis ..
      next
        case (Continue c' s')
        with 1(2) True Inr have "f cb cf r sw c' rv s' = Some y" by simp
        from 1(1) [OF this] obtain n where "sift_loop_upto n cb cf r sw c' rv s' = Done y" ..
        with True Inr Continue have "sift_loop_upto (Suc n) cb cf r sw c rv s = Done y" by simp
        then show ?thesis ..
      qed
    qed
  qed
qed

text \<open>
  While the loop is running no invocation has failed, every number has been released and
  every index was in range.
\<close>

lemma sift_loop_upto_Running:
  assumes "sift_loop_upto n sort_cb compare_func right swap child ret_value st = Running s"
    and "unat right < length (array_p st)" and "child \<noteq> 0"
  shows "\<exists>evs. trace s = trace st @ evs \<and> calm right evs
           \<and> length (array_p s) = length (array_p st)"
  using assms
proof (induction n arbitrary: child st)
  case 0
  then show ?case by simp
next
  case (Suc n)
  from Suc.prems(1) have le: "child \<le> right" by (simp split: if_splits)
  from Suc.prems(2) le Suc.prems(3) show ?case
  proof (cases rule: sift_iteration_cases [where sort_cb = sort_cb and compare_func = compare_func
        and swap = swap and ret_value = ret_value])
    case (child_error rt)
    with Suc.prems(1) le show ?thesis by simp
  next
    case (swap_error child1 st1 rt)
    with Suc.prems(1) le show ?thesis by simp
  next
    case (settled child1 st1 n rt)
    with Suc.prems(1) le show ?thesis by simp
  next
    case (shifted child1 st1 m rt)
    let ?s1 = "st1\<lparr>array_p := (array_p st)[unat ((child1 - 1) div 2) := array_p st ! unat child1],
                     runtime := rt, trace := trace st1 @
                  [Read child1, Invoke (array_p st ! unat child1) swap (COMPARE_NUMBER m),
                   Read child1, Write ((child1 - 1) div 2) (array_p st ! unat child1),
                   Release m]\<rparr>"
    from shifted(4) Suc.prems(1) le
    have run: "sift_loop_upto n sort_cb compare_func right swap (child1 * 2 + 1) ret_value ?s1 = Running s"
      by simp
    have len1: "unat right < length (array_p ?s1)" using Suc.prems(2) by simp
    from Suc.IH [OF run len1 double_succ_nz]
    obtain evs where e: "trace s = trace ?s1 @ evs" "calm right evs"
      "length (array_p s) = length (array_p ?s1)" by blast
    from picked_trace [OF shifted(1) le] obtain pk where p: "trace st1 = trace st @ pk" "calm right pk"
      by blast
    note b = picked_bounds [OF shifted(1) le Suc.prems(3)]
    have "calm right (pk @ [Read child1, Invoke (array_p st ! unat child1) swap (COMPARE_NUMBER m),
      Read child1, Write ((child1 - 1) div 2) (array_p st ! unat child1), Release m] @ evs)"
      by (intro calm_append p calm_shift b e)
    with e p show ?thesis by simp
  qed
qed

lemma array_to_heap_upto_Done:
  assumes "array_to_heap_upto n index right compare_func sort_cb st = Done res"
  shows "ecma_builtin_helper_array_to_heap index right compare_func sort_cb st = Some res"
proof (cases "array_get index st")
  case (Inl e)
  with assms show ?thesis
    by (simp add: array_to_heap_upto_def ecma_builtin_helper_array_to_heap_def)
next
  case (Inr p)
  obtain swap st1 where p: "p = (swap, st1)" by (cases p)
  show ?thesis
  proof (cases "sift_loop_upto n sort_cb compare_func right swap (index * 2 + 1) ECMA_VALUE_EMPTY st1")
    case (Running s)
    with assms Inr p show ?thesis by (simp add: array_to_heap_upto_def)
  next
    case (Done r)
    from sift_loop_upto_Done [OF this]
    have "sift_loop sort_cb compare_func right swap (index * 2 + 1) ECMA_VALUE_EMPTY st1 = Some r" .
    with assms Inr p Done show ?thesis
      by (cases r) (auto simp: array_to_heap_upto_def ecma_builtin_helper_array_to_heap_def
          Let_def split: sum.splits prod.splits if_splits)
  qed
qed

lemma array_to_heap_upto_mono:
  assumes "array_to_heap_upto n index right compare_func sort_cb st = Done res"
  shows "array_to_heap_upto (n + k) index right compare_func sort_cb st = Done res"
proof (cases "array_get index st")
  case (Inl e)
  with assms show ?thesis by (simp add: array_to_heap_upto_def)
next
  case (Inr p)
  obtain swap st1 where p: "p = (swap, st1)" by (cases p)
  show ?thesis
  proof (cases "sift_loop_upto n sort_cb compare_func right swap (index * 2 + 1) ECMA_VALUE_EMPTY st1")
    case (Running s)
    with assms Inr p show ?thesis by (simp add: array_to_heap_upto_def)
  next
    case (Done r)
    from sift_loop_upto_mono [OF this, of k] assms Inr p Done show ?thesis
      by (simp add: array_to_heap_upto_def)
  qed
qed

lemma array_to_heap_upto_complete:
  assumes "ecma_builtin_helper_array_to_heap index right compare_func sort_cb st = Some res"
  shows "\<exists>n. array_to_heap_upto n index right compare_func sort_cb st = Done res"
proof (cases "array_get index st")
  case (Inl e)
  with assms show ?thesis
    by (simp add: array_to_heap_upto_def ecma_builtin_helper_array_to_heap_def)
next
  case (Inr p)
  obtain swap st1 where p: "p = (swap, st1)" by (cases p)
  show ?thesis
  proof (cases "sift_loop sort_cb compare_func right swap (index * 2 + 1) ECMA_VALUE_EMPTY st1")
    case None
    with assms Inr p show ?thesis by (simp add: ecma_builtin_helper_array_to_heap_def)
  next
    case (Some r)
    from sift_loop_upto_complete [OF this] obtain n where
      "sift_loop_upto n sort_cb compare_func right swap (index * 2 + 1) ECMA_VALUE_EMPTY st1 = Done r" ..
    with assms Inr p Some have "array_to_heap_upto n index right compare_func sort_cb st = Done res"
      by (cases r) (auto simp: array_to_heap_upto_def ecma_builtin_helper_array_to_heap_def
          Let_def split: sum.splits prod.splits if_splits)
    then show ?thesis ..
  qed
qed

lemma array_to_heap_upto_Running:
  assumes "array_to_heap_upto n index right compare_func sort_cb st = Running s"
    and "index \<le> right" and "unat right < length (array_p st)"
  shows "\<exists>evs. trace s = trace st @ evs \<and> calm right evs
           \<and> length (array_p s) = length (array_p st)"
proof -
  let ?st1 = "st\<lparr>trace := trace st @ [Read index]\<rparr>"
  from assms(2,3) have i: "unat index < length (array_p st)" by (simp add: word_le_nat_alt)
  have "sift_loop_upto n sort_cb compare_func right (array_p st ! unat index)
      (index * 2 + 1) ECMA_VALUE_EMPTY ?st1 = Running s"
  proof (cases "sift_loop_upto n sort_cb compare_func right (array_p st ! unat index)
      (index * 2 + 1) ECMA_VALUE_EMPTY ?st1")
    case (Running s')
    with assms(1) i show ?thesis by (simp add: array_to_heap_upto_def array_get_def)
  next
    case (Done r)
    with assms(1) i show ?thesis
      by (cases r) (auto simp: array_to_heap_upto_def array_get_def Let_def
          split: sum.splits prod.splits if_splits)
  qed
  from sift_loop_upto_Running [OF this _ double_succ_nz] assms(3)
  obtain evs where "trace s = trace ?st1 @ evs" "calm right evs"
    "length (array_p s) = length (array_p ?st1)" by auto
  moreover have "calm right ([Read index] @ evs)"
    by (intro calm_append calm_read assms(2)) fact
  ultimately show ?thesis by simp
qed

lemma build_loop_upto_step:
  assumes "0 < i"
  shows "build_loop_upto n right compare_func sort_cb i st =
     (case array_to_heap_upto n (i - 1) right compare_func sort_cb st of
           Running s \<Rightarrow> Running s
         | Done (Inl e) \<Rightarrow> Done (Inl e)
         | Done (Inr (value, st1)) \<Rightarrow>
             if value = ECMA_VALUE_ERROR then Done (Inr (Some value, st1))
             else build_loop_upto n right compare_func sort_cb (i - 1) st1)"
  using assms by (subst build_loop_upto.simps) simp

lemma sort_loop_upto_step:
  assumes "0 < i" and "unat i < length (array_p st)"
  shows "sort_loop_upto n compare_func sort_cb i st =
     (case array_to_heap_upto n 0 (i - 1) compare_func sort_cb (exchanged i st) of
           Running s \<Rightarrow> Running s
         | Done (Inl e) \<Rightarrow> Done (Inl e)
         | Done (Inr (value, st5)) \<Rightarrow>
             if value = ECMA_VALUE_ERROR then Done (Inr (Some value, st5))
             else sort_loop_upto n compare_func sort_cb (i - 1) st5)"
proof -
  from assms(2) have "0 < length (array_p st)" by (rule length_pos_if_less)
  with assms show ?thesis
    by (subst sort_loop_upto.simps) (simp add: array_get_def array_set_def exchanged_def)
qed

text \<open>
  A loop with a bound and the loop without, when both are written as one call of the
  sift-down routine followed by the rest of the loop.
\<close>

lemma loop_upto_Done:
  assumes up: "up = (case array_to_heap_upto n index right compare_func sort_cb st of
           Running s \<Rightarrow> Running s
         | Done (Inl e) \<Rightarrow> Done (Inl e)
         | Done (Inr (value, st1)) \<Rightarrow>
             if value = ECMA_VALUE_ERROR then Done (Inr (Some value, st1)) else rest_upto st1)"
    and lp: "lp = (case ecma_builtin_helper_array_to_heap index right compare_func sort_cb st of
           None \<Rightarrow> None
         | Some (Inl e) \<Rightarrow> Some (Inl e)
         | Some (Inr (value, st1)) \<Rightarrow>
             if value = ECMA_VALUE_ERROR then Some (Inr (Some value, st1)) else rest st1)"
    and rest: "\<And>st1. rest_upto st1 = Done res \<Longrightarrow> rest st1 = Some res"
    and run: "up = Done res"
  shows "lp = Some res"
proof (cases "array_to_heap_upto n index right compare_func sort_cb st")
  case (Running s)
  with up run show ?thesis by simp
next
  case (Done r1)
  from array_to_heap_upto_Done [OF this]
  have h: "ecma_builtin_helper_array_to_heap index right compare_func sort_cb st = Some r1" .
  show ?thesis
  proof (cases r1)
    case (Inl e)
    with up lp run Done h show ?thesis by simp
  next
    case (Inr p)
    obtain v st1 where p: "p = (v, st1)" by (cases p)
    show ?thesis
    proof (cases "v = ECMA_VALUE_ERROR")
      case True
      with up lp run Done h Inr p show ?thesis by simp
    next
      case False
      with up run Done Inr p have "rest_upto st1 = Done res" by simp
      from rest [OF this] lp h Inr p False show ?thesis by simp
    qed
  qed
qed

lemma loop_upto_mono:
  assumes up: "up = (case array_to_heap_upto n index right compare_func sort_cb st of
           Running s \<Rightarrow> Running s
         | Done (Inl e) \<Rightarrow> Done (Inl e)
         | Done (Inr (value, st1)) \<Rightarrow>
             if value = ECMA_VALUE_ERROR then Done (Inr (Some value, st1)) else rest_upto st1)"
    and up': "up' = (case array_to_heap_upto (n + k) index right compare_func sort_cb st of
           Running s \<Rightarrow> Running s
         | Done (Inl e) \<Rightarrow> Done (Inl e)
         | Done (Inr (value, st1)) \<Rightarrow>
             if value = ECMA_VALUE_ERROR then Done (Inr (Some value, st1)) else rest_upto' st1)"
    and rest: "\<And>st1. rest_upto st1 = Done res \<Longrightarrow> rest_upto' st1 = Done res"
    and run: "up = Done res"
  shows "up' = Done res"
proof (cases "array_to_heap_upto n index right compare_func sort_cb st")
  case (Running s)
  with up run show ?thesis by simp
next
  case (Done r1)
  from array_to_heap_upto_mono [OF this, of k]
  have h: "array_to_heap_upto (n + k) index right compare_func sort_cb st = Done r1" .
  show ?thesis
  proof (cases r1)
    case (Inl e)
    with up up' run Done h show ?thesis by simp
  next
    case (Inr p)
    obtain v st1 where p: "p = (v, st1)" by (cases p)
    show ?thesis
    proof (cases "v = ECMA_VALUE_ERROR")
      case True
      with up up' run Done h Inr p show ?thesis by simp
    next
      case False
      with up run Done Inr p have "rest_upto st1 = Done res" by simp
      from rest [OF this] up' h Inr p False show ?thesis by simp
    qed
  qed
qed

lemma loop_upto_complete:
  assumes up: "\<And>n. up n = (case array_to_heap_upto n index right compare_func sort_cb st of
           Running s \<Rightarrow> Running s
         | Done (Inl e) \<Rightarrow> Done (Inl e)
         | Done (Inr (value, st1)) \<Rightarrow>
             if value = ECMA_VALUE_ERROR then Done (Inr (Some value, st1)) else rest_upto n st1)"
    and lp: "lp = (case ecma_builtin_helper_array_to_heap index right compare_func sort_cb st of
           None \<Rightarrow> None
         | Some (Inl e) \<Rightarrow> Some (Inl e)
         | Some (Inr (value, st1)) \<Rightarrow>
             if value = ECMA_VALUE_ERROR then Some (Inr (Some value, st1)) else rest st1)"
    and rest: "\<And>st1. rest st1 = Some res \<Longrightarrow> \<exists>n. rest_upto n st1 = Done res"
    and mono: "\<And>n k st1. rest_upto n st1 = Done res \<Longrightarrow> rest_upto (n + k) st1 = Done res"
    and run: "lp = Some res"
  shows "\<exists>n. up n = Done res"
proof (cases "ecma_builtin_helper_array_to_heap index right compare_func sort_cb st")
  case None
  with lp run show ?thesis by simp
next
  case (Some r1)
  from array_to_heap_upto_complete [OF this] obtain n1 where
    h: "array_to_heap_upto n1 index right compare_func sort_cb st = Done r1" ..
  show ?thesis
  proof (cases r1)
    case (Inl e)
    with up [of n1] lp run Some h have "up n1 = Done res" by simp
    then show ?thesis ..
  next
    case (Inr p)
    obtain v st1 where p: "p = (v, st1)" by (cases p)
    show ?thesis
    proof (cases "v = ECMA_VALUE_ERROR")
      case True
      with up [of n1] lp run Some h Inr p have "up n1 = Done res" by simp
      then show ?thesis ..
    next
      case False
      with lp run Some Inr p have "rest st1 = Some res" by simp
      from rest [OF this] obtain n2 where "rest_upto n2 st1 = Done res" ..
      from mono [OF this, of n1] have "rest_upto (n1 + n2) st1 = Done res" by (simp add: add.commute)
      moreover from array_to_heap_upto_mono [OF h, of n2]
      have "array_to_heap_upto (n1 + n2) index right compare_func sort_cb st = Done r1" .
      ultimately have "up (n1 + n2) = Done res" using up [of "n1 + n2"] Inr p False by simp
      then show ?thesis ..
    qed
  qed
qed

lemma build_loop_upto_Done:
  "build_loop_upto n right compare_func sort_cb i st = Done res \<Longrightarrow>
   build_loop right compare_func sort_cb i st = Some res"
proof (induction "unat i" arbitrary: i st)
  case 0
  then have "unat i = 0" by simp
  then have "i = 0" by (simp only: unat_eq_0)
  with 0(2) show ?case
    by (subst build_loop.simps, subst (asm) build_loop_upto.simps) simp
next
  case (Suc m)
  then have pos: "0 < i" by (auto simp: word_greater_zero_iff)
  then have u: "m = unat (i - 1)" using Suc(2) by (simp add: unat_minus_one word_greater_zero_iff)
  show ?case
    by (rule loop_upto_Done [OF build_loop_upto_step [OF pos] build_loop_step [OF pos] _ Suc.prems])
       (rule Suc(1) [OF u])
qed

lemma build_loop_upto_mono:
  "build_loop_upto n right compare_func sort_cb i st = Done res \<Longrightarrow>
   build_loop_upto (n + k) right compare_func sort_cb i st = Done res"
proof (induction "unat i" arbitrary: i st)
  case 0
  then have "unat i = 0" by simp
  then have "i = 0" by (simp only: unat_eq_0)
  with 0(2) show ?case
    by (subst build_loop_upto.simps, subst (asm) build_loop_upto.simps) simp
next
  case (Suc m)
  then have pos: "0 < i" by (auto simp: word_greater_zero_iff)
  then have u: "m = unat (i - 1)" using Suc(2) by (simp add: unat_minus_one word_greater_zero_iff)
  show ?case
    by (rule loop_upto_mono [OF build_loop_upto_step [OF pos] build_loop_upto_step [OF pos] _ Suc.prems])
       (rule Suc(1) [OF u])
qed

lemma build_loop_upto_complete:
  "build_loop right compare_func sort_cb i st = Some res \<Longrightarrow>
   \<exists>n. build_loop_upto n right compare_func sort_cb i st = Done res"
proof (induction "unat i" arbitrary: i st)
  case 0
  then have "unat i = 0" by simp
  then have "i = 0" by (simp only: unat_eq_0)
  with 0(2) have "build_loop_upto 0 right compare_func sort_cb i st = Done res"
    by (subst build_loop_upto.simps, subst (asm) build_loop.simps) simp
  then show ?case ..
next
  case (Suc m)
  then have pos: "0 < i" by (auto simp: word_greater_zero_iff)
  then have u: "m = unat (i - 1)" using Suc(2) by (simp add: unat_minus_one word_greater_zero_iff)
  show ?case
    by (rule loop_upto_complete [where rest_upto = "\<lambda>n. build_loop_upto n right compare_func sort_cb (i - 1)",
          OF build_loop_upto_step [OF pos] build_loop_step [OF pos] _ _ Suc.prems])
       (rule Suc(1) [OF u], assumption, rule build_loop_upto_mono, assumption)
qed

lemma sort_loop_outside:
  assumes "0 < i" and "\<not> unat i < length (array_p st)"
  shows "sort_loop compare_func sort_cb i st = Some (Inl OutOfBounds)"
    and "sort_loop_upto n compare_func sort_cb i st = Done (Inl OutOfBounds)"
  using assms
  by (subst sort_loop.simps sort_loop_upto.simps, simp add: array_get_def array_set_def)+

lemma sort_loop_upto_Done:
  "sort_loop_upto n compare_func sort_cb i st = Done res \<Longrightarrow>
   sort_loop compare_func sort_cb i st = Some res"
proof (induction "unat i" arbitrary: i st)
  case 0
  then have "unat i = 0" by simp
  then have "i = 0" by (simp only: unat_eq_0)
  with 0(2) show ?case
    by (subst sort_loop.simps, subst (asm) sort_loop_upto.simps) simp
next
  case (Suc m)
  then have pos: "0 < i" by (auto simp: word_greater_zero_iff)
  then have u: "m = unat (i - 1)" using Suc(2) by (simp add: unat_minus_one word_greater_zero_iff)
  show ?case
  proof (cases "unat i < length (array_p st)")
    case False
    from sort_loop_outside [OF pos False] Suc.prems show ?thesis by simp
  next
    case True
    show ?thesis
      by (rule loop_upto_Done [OF sort_loop_upto_step [OF pos True] sort_loop_step [OF pos True]
            _ Suc.prems])
         (rule Suc(1) [OF u])
  qed
qed

lemma sort_loop_upto_mono:
  "sort_loop_upto n compare_func sort_cb i st = Done res \<Longrightarrow>
   sort_loop_upto (n + k) compare_func sort_cb i st = Done res"
proof (induction "unat i" arbitrary: i st)
  case 0
  then have "unat i = 0" by simp
  then have "i = 0" by (simp only: unat_eq_0)
  with 0(2) show ?case
    by (subst sort_loop_upto.simps, subst (asm) sort_loop_upto.simps) simp
next
  case (Suc m)
  then have pos: "0 < i" by (auto simp: word_greater_zero_iff)
  then have u: "m = unat (i - 1)" using Suc(2) by (simp add: unat_minus_one word_greater_zero_iff)
  show ?case
  proof (cases "unat i < length (array_p st)")
    case False
    from sort_loop_outside(2) [OF pos False] Suc.prems
    show ?thesis by simp
  next
    case True
    show ?thesis
      by (rule loop_upto_mono [OF sort_loop_upto_step [OF pos True] sort_loop_upto_step [OF pos True]
            _ Suc.prems])
         (rule Suc(1) [OF u])
  qed
qed

lemma sort_loop_upto_complete:
  "sort_loop compare_func sort_cb i st = Some res \<Longrightarrow>
   \<exists>n. sort_loop_upto n compare_func sort_cb i st = Done res"
proof (induction "unat i" arbitrary: i st)
  case 0
  then have "unat i = 0" by simp
  then have "i = 0" by (simp only: unat_eq_0)
  with 0(2) have "sort_loop_upto 0 compare_func sort_cb i st = Done res"
    by (subst sort_loop_upto.simps, subst (asm) sort_loop.simps) simp
  then show ?case ..
next
  case (Suc m)
  then have pos: "0 < i" by (auto simp: word_greater_zero_iff)
  then have u: "m = unat (i - 1)" using Suc(2) by (simp add: unat_minus_one word_greater_zero_iff)
  show ?case
  proof (cases "unat i < length (array_p st)")
    case False
    from sort_loop_outside [OF pos False] Suc.prems
    have "sort_loop_upto 0 compare_func sort_cb i st = Done res" by simp
    then show ?thesis ..
  next
    case True
    show ?thesis
      by (rule loop_upto_complete [where rest_upto = "\<lambda>n. sort_loop_upto n compare_func sort_cb (i - 1)",
            OF sort_loop_upto_step [OF pos True] sort_loop_step [OF pos True] _ _ Suc.prems])
         (rule Suc(1) [OF u], assumption, rule sort_loop_upto_mono, assumption)
  qed
qed

text \<open>The driver with a bound agrees with the driver.\<close>

lemma helper_upto_Done:
  assumes "array_heap_sort_helper_upto n right compare_func sort_cb st = Done res"
  shows "ecma_builtin_helper_array_heap_sort_helper right compare_func sort_cb st = Some res"
proof (cases "build_loop_upto n right compare_func sort_cb (right div 2 + 1) st")
  case (Running s)
  with assms show ?thesis by (simp add: array_heap_sort_helper_upto_def)
next
  case (Done r1)
  note b = build_loop_upto_Done [OF Done]
  show ?thesis
  proof (cases r1)
    case (Inl e)
    with assms Done b show ?thesis
      by (simp add: array_heap_sort_helper_upto_def ecma_builtin_helper_array_heap_sort_helper_def)
  next
    case (Inr p)
    obtain rvo st1 where p: "p = (rvo, st1)" by (cases p)
    show ?thesis
    proof (cases rvo)
      case (Some v)
      with assms Done b Inr p show ?thesis
        by (simp add: array_heap_sort_helper_upto_def ecma_builtin_helper_array_heap_sort_helper_def)
    next
      case None
      show ?thesis
      proof (cases "sort_loop_upto n compare_func sort_cb right st1")
        case (Running s)
        with assms Done Inr p None show ?thesis by (simp add: array_heap_sort_helper_upto_def)
      next
        case d2: (Done r2)
        from sort_loop_upto_Done [OF d2] assms Done b Inr p None d2 show ?thesis
          by (auto simp: array_heap_sort_helper_upto_def ecma_builtin_helper_array_heap_sort_helper_def
              split: sum.splits option.splits)
      qed
    qed
  qed
qed

lemma helper_upto_complete:
  assumes "ecma_builtin_helper_array_heap_sort_helper right compare_func sort_cb st = Some res"
  shows "\<exists>n. array_heap_sort_helper_upto n right compare_func sort_cb st = Done res"
proof (cases "build_loop right compare_func sort_cb (right div 2 + 1) st")
  case None
  with assms show ?thesis by (simp add: ecma_builtin_helper_array_heap_sort_helper_def)
next
  case (Some r1)
  from build_loop_upto_complete [OF Some] obtain n1 where
    b: "build_loop_upto n1 right compare_func sort_cb (right div 2 + 1) st = Done r1" ..
  show ?thesis
  proof (cases r1)
    case (Inl e)
    with assms Some b have "array_heap_sort_helper_upto n1 right compare_func sort_cb st = Done res"
      by (simp add: array_heap_sort_helper_upto_def ecma_builtin_helper_array_heap_sort_helper_def)
    then show ?thesis ..
  next
    case (Inr p)
    obtain rvo st1 where p: "p = (rvo, st1)" by (cases p)
    show ?thesis
    proof (cases rvo)
      case s: (Some v)
      with assms Some b Inr p
      have "array_heap_sort_helper_upto n1 right compare_func sort_cb st = Done res"
        by (simp add: array_heap_sort_helper_upto_def ecma_builtin_helper_array_heap_sort_helper_def)
      then show ?thesis ..
    next
      case None
      show ?thesis
      proof (cases "sort_loop compare_func sort_cb right st1")
        case n2: None
        with assms Some Inr p None show ?thesis
          by (simp add: ecma_builtin_helper_array_heap_sort_helper_def)
      next
        case s2: (Some r2)
        from sort_loop_upto_complete [OF s2] obtain n2 where
          "sort_loop_upto n2 compare_func sort_cb right st1 = Done r2" ..
        from sort_loop_upto_mono [OF this, of n1]
        have "sort_loop_upto (n1 + n2) compare_func sort_cb right st1 = Done r2"
          by (simp add: add.commute)
        moreover note build_loop_upto_mono [OF b, of n2]
        ultimately
        have "array_heap_sort_helper_upto (n1 + n2) right compare_func sort_cb st = Done res"
          using assms Some Inr p None s2
          by (auto simp: array_heap_sort_helper_upto_def ecma_builtin_helper_array_heap_sort_helper_def
              split: sum.splits option.splits)
        then show ?thesis ..
      qed
    qed
  qed
qed

text \<open>
  While a run has not returned, whatever the bound, no invocation has failed, every number
  has been released and every index was in range.
\<close>

lemma build_loop_upto_Running:
  assumes "build_loop_upto n right compare_func sort_cb i st = Running s"
    and "unat i \<le> Suc (unat right)" and "unat right < length (array_p st)"
  shows "\<exists>evs. trace s = trace st @ evs \<and> calm right evs"
  using assms
proof (induction "unat i" arbitrary: i st)
  case 0
  then have "unat i = 0" by simp
  then have "i = 0" by (simp only: unat_eq_0)
  with 0(2) show ?case by (subst (asm) build_loop_upto.simps) simp
next
  case (Suc m)
  then have pos: "0 < i" by (auto simp: word_greater_zero_iff)
  then have u: "unat (i - 1) = m" using Suc(2) by (simp add: unat_minus_one word_greater_zero_iff)
  with Suc(2) Suc.prems(2) have idx: "i - 1 \<le> right" by (simp add: word_le_nat_alt)
  note step = build_loop_upto_step [OF pos, of n right compare_func sort_cb st]
  show ?case
  proof (cases "array_to_heap_upto n (i - 1) right compare_func sort_cb st")
    case (Running s')
    with Suc.prems(1) step have "s' = s" by simp
    with array_to_heap_upto_Running [OF Running idx Suc.prems(3)] show ?thesis by blast
  next
    case (Done r1)
    from to_heap_events [OF idx Suc.prems(3) array_to_heap_upto_Done [OF Done]]
    obtain rv st1 evs where r1: "r1 = Inr (rv, st1)" "trace st1 = trace st @ evs"
      "finished right rv evs" "length (array_p st1) = length (array_p st)" by blast
    show ?thesis
    proof (cases "rv = ECMA_VALUE_ERROR")
      case True
      with Done r1 Suc.prems(1) step show ?thesis by simp
    next
      case False
      then have rv: "rv = ECMA_VALUE_EMPTY" by (cases rv) simp_all
      from Done r1 Suc.prems(1) step False
      have "build_loop_upto n right compare_func sort_cb (i - 1) st1 = Running s" by simp
      with Suc(1) [of "i - 1" st1] u Suc.prems Suc(2) r1(4)
      obtain evs' where r: "trace s = trace st1 @ evs'" "calm right evs'" by auto
      from r1(3) rv have "calm right evs" by (simp add: finished_def)
      from calm_append [OF this r(2)] r r1 show ?thesis by simp
    qed
  qed
qed

lemma sort_loop_upto_Running:
  assumes "sort_loop_upto n compare_func sort_cb i st = Running s"
    and "i \<le> right" and "unat i < length (array_p st)"
  shows "\<exists>evs. trace s = trace st @ evs \<and> calm right evs"
  using assms
proof (induction "unat i" arbitrary: i st)
  case 0
  then have "unat i = 0" by simp
  then have "i = 0" by (simp only: unat_eq_0)
  with 0(2) show ?case by (subst (asm) sort_loop_upto.simps) simp
next
  case (Suc m)
  then have pos: "0 < i" by (auto simp: word_greater_zero_iff)
  then have u: "unat (i - 1) = m" using Suc(2) by (simp add: unat_minus_one word_greater_zero_iff)
  from Suc(2) have ui: "unat i = Suc m" by simp
  note step = sort_loop_upto_step [OF pos Suc.prems(3), of n compare_func sort_cb]
  have lx: "length (array_p (exchanged i st)) = length (array_p st)" by (simp add: exchanged_def)
  have tx: "trace (exchanged i st) = trace st @
      [Read 0, Read i, Write 0 (array_p st ! unat i), Write i (array_p st ! 0)]"
    by (simp add: exchanged_def)
  have le: "i - 1 \<le> right" using Suc.prems(2) u ui by (simp add: word_le_nat_alt)
  have b: "(0 :: uint32) \<le> i - 1" "unat (i - 1) < length (array_p (exchanged i st))"
    using u Suc.prems ui by (simp_all add: lx)
  note cx = calm_exchange [OF Suc.prems(2), of "array_p st ! unat i" "array_p st ! 0"]
  show ?case
  proof (cases "array_to_heap_upto n 0 (i - 1) compare_func sort_cb (exchanged i st)")
    case (Running s')
    with Suc.prems(1) step have "s' = s" by simp
    with array_to_heap_upto_Running [OF Running b]
    obtain evs where e: "trace s = trace (exchanged i st) @ evs" "calm (i - 1) evs" by blast
    from calm_append [OF cx calm_mono [OF e(2) le]] e(1) tx show ?thesis by simp
  next
    case (Done r1)
    from to_heap_events [OF b array_to_heap_upto_Done [OF Done]]
    obtain rv st1 evs where r1: "r1 = Inr (rv, st1)" "trace st1 = trace (exchanged i st) @ evs"
      "finished (i - 1) rv evs" "length (array_p st1) = length (array_p (exchanged i st))" by blast
    from finished_mono [OF r1(3) le] have f: "finished right rv evs" .
    show ?thesis
    proof (cases "rv = ECMA_VALUE_ERROR")
      case True
      with Done r1 Suc.prems(1) step show ?thesis by simp
    next
      case False
      then have rv: "rv = ECMA_VALUE_EMPTY" by (cases rv) simp_all
      from Done r1 Suc.prems(1) step False
      have "sort_loop_upto n compare_func sort_cb (i - 1) st1 = Running s" by simp
      with Suc(1) [of "i - 1" st1] u le Suc.prems ui r1(4) lx
      obtain evs' where r: "trace s = trace st1 @ evs'" "calm right evs'" by auto
      from f rv have "calm right evs" by (simp add: finished_def)
      from calm_append [OF cx calm_append [OF this r(2)]] r r1 tx show ?thesis by simp
    qed
  qed
qed

lemma helper_upto_Running:
  assumes len: "length (array_p st) = Suc (unat right)"
    and run: "array_heap_sort_helper_upto n right compare_func sort_cb st = Running s"
  shows "\<exists>evs. trace s = trace st @ evs \<and> calm right evs"
proof (cases "build_loop_upto n right compare_func sort_cb (right div 2 + 1) st")
  case (Running s')
  with run have "s' = s" by (simp add: array_heap_sort_helper_upto_def)
  have "unat (right div 2 + 1) \<le> Suc (unat right)" by (simp add: unat_half_succ)
  from build_loop_upto_Running [OF Running this] len \<open>s' = s\<close> show ?thesis by simp
next
  case (Done r1)
  have "unat (right div 2 + 1) \<le> Suc (unat right)" by (simp add: unat_half_succ)
  from build_loop_events [OF this _ build_loop_upto_Done [OF Done]] len
  obtain rvo st1 evs where r1: "r1 = Inr (rvo, st1)" "trace st1 = trace st @ evs"
    "loop_finished right rvo evs" "length (array_p st1) = length (array_p st)" by auto
  show ?thesis
  proof (cases rvo)
    case (Some v)
    with r1 run Done show ?thesis by (simp add: array_heap_sort_helper_upto_def)
  next
    case None
    show ?thesis
    proof (cases "sort_loop_upto n compare_func sort_cb right st1")
      case d2: (Done r2)
      with None r1 run Done show ?thesis
        by (auto simp: array_heap_sort_helper_upto_def split: sum.splits option.splits)
    next
      case r: (Running s')
      with None r1 run Done have "s' = s" by (simp add: array_heap_sort_helper_upto_def)
      have "unat right < length (array_p st1)" using r1(4) len by simp
      from sort_loop_upto_Running [OF r order_refl this] \<open>s' = s\<close>
      obtain evs' where e: "trace s = trace st1 @ evs'" "calm right evs'" by blast
      from r1(3) None have "calm right evs" by (simp add: loop_finished_def)
      from calm_append [OF this e(2)] e(1) r1(2) show ?thesis by simp
    qed
  qed
qed

text \<open>
  An example of a run that does not return: on the array of \<open>2 ^ 32 - 1\<close> elements, where the
  first phase never leaves the loop of its second call of the sift-down routine, the sort
  routine is still running after any number of tests.
\<close>

lemma diverging_run_is_running:
  "\<exists>s. array_heap_sort_helper_upto n 4294967294 0 difference_cb (start full_array) = Running s"
proof (cases "array_heap_sort_helper_upto n 4294967294 0 difference_cb (start full_array)")
  case (Running s)
  then show ?thesis by simp
next
  case (Done res)
  have "ecma_builtin_helper_array_heap_sort_helper 4294967294 0 difference_cb (start full_array) = None"
    using build_loop_diverges by (simp add: ecma_builtin_helper_array_heap_sort_helper_def)
  with helper_upto_Done [OF Done] show ?thesis by simp
qed

subsection \<open>The first invocation of a call\<close>

text \<open>A call of the sift-down routine for a node without a child stores back what it read.\<close>

lemma to_heap_no_child:
  assumes idx: "unat index \<le> unat right div 2" and len: "unat right < length (array_p st)"
    and none: "\<not> index * 2 + 1 \<le> right"
  shows "ecma_builtin_helper_array_to_heap index right compare_func sort_cb st =
           Some (Inr (ECMA_VALUE_EMPTY,
             st\<lparr>trace := trace st @ [Read index, Write index (array_p st ! unat index)]\<rparr>))"
proof -
  let ?st1 = "st\<lparr>trace := trace st @ [Read index]\<rparr>"
  let ?swap = "array_p st ! unat index"
  let ?c = "index * 2 + 1"
  have ir: "index \<le> right" using idx by (simp add: word_le_nat_alt)
  have "unat right < 4294967296" by (rule unat_lt_max)
  with idx have "2 * unat index + 1 < 4294967296" by presburger
  then have uc: "unat ?c = 2 * unat index + 1" by (simp add: unat_double_succ)
  have "unat ((?c - 1) div 2) = (unat ?c - 1) div 2" by (rule unat_parent [OF double_succ_nz])
  also have "\<dots> = unat index" by (simp add: uc)
  finally have "unat ((?c - 1) div 2) = unat index" .
  then have par: "(?c - 1) div 2 = index" by (simp only: word_unat_eq_iff)
  from none have "sift_loop sort_cb compare_func right ?swap ?c ECMA_VALUE_EMPTY ?st1
      = Some (Inr (ECMA_VALUE_EMPTY, ?c, ?st1))"
    by (subst sift_loop.simps) simp
  from to_heap_unfold [OF ir len this] show ?thesis by (simp only: par) simp
qed

text \<open>
  What lines 41 to 61 add to the events: nothing when there is no sibling, and one
  invocation that returned a number otherwise.
\<close>

lemma picked_outcomes:
  assumes "picked sort_cb compare_func right child st child1 st1"
  shows "\<exists>pk. trace st1 = trace st @ pk
           \<and> (pk = [] \<and> child1 = child \<and> st1 = st \<or> (\<exists>n. outcomes pk = [COMPARE_NUMBER n]))"
proof (cases "child < right")
  case True
  with assms show ?thesis by (auto simp: picked_def)
next
  case False
  with assms show ?thesis by (simp add: picked_def)
qed

text \<open>
  A call of the sift-down routine for a node with a child invokes the comparator; when the
  first of its invocations fails, the call returns the error and the array is as it was.
\<close>

lemma to_heap_first_outcome:
  assumes idx: "unat index \<le> unat right div 2" and len: "unat right < length (array_p st)"
    and child: "index * 2 + 1 \<le> right"
    and run: "ecma_builtin_helper_array_to_heap index right compare_func sort_cb st
                = Some (Inr (rv, s))"
  shows "\<exists>r rs. outcomes (issued st s) = r # rs
           \<and> (r = COMPARE_ERROR \<longrightarrow> rv = ECMA_VALUE_ERROR \<and> array_p s = array_p st)"
proof -
  let ?st1 = "st\<lparr>trace := trace st @ [Read index]\<rparr>"
  let ?swap = "array_p st ! unat index"
  let ?c = "index * 2 + 1"
  have ir: "index \<le> right" using idx by (simp add: word_le_nat_alt)
  have "unat right < 4294967296" by (rule unat_lt_max)
  with idx have "2 * unat index + 1 < 4294967296" by presburger
  then have uc: "unat ?c = 2 * unat index + 1" by (simp add: unat_double_succ)
  have "unat ((?c - 1) div 2) = (unat ?c - 1) div 2" by (rule unat_parent [OF double_succ_nz])
  also have "\<dots> = unat index" by (simp add: uc)
  finally have par: "unat ((?c - 1) div 2) = unat index" .
  have len1: "unat right < length (array_p ?st1)" using len by simp
  from ir len obtain c s2 where
    loop: "sift_loop sort_cb compare_func right ?swap ?c ECMA_VALUE_EMPTY ?st1 = Some (Inr (rv, c, s2))"
    and s: "s = s2\<lparr>array_p := (array_p s2)[unat ((c - 1) div 2) := ?swap],
                    trace := trace s2 @ [Write ((c - 1) div 2) ?swap]\<rparr>"
  proof (cases rule: to_heap_cases [where sort_cb = sort_cb and compare_func = compare_func])
    case diverges
    with run show ?thesis by simp
  next
    case (returns rv' c s2)
    with run that show ?thesis by simp
  qed
  have it: "(case sift_iteration sort_cb compare_func right ?swap ?c ECMA_VALUE_EMPTY ?st1 of
           Inl e \<Rightarrow> Some (Inl e)
         | Inr (Break r c s) \<Rightarrow> Some (Inr (r, c, s))
         | Inr (Continue c s) \<Rightarrow> sift_loop sort_cb compare_func right ?swap c ECMA_VALUE_EMPTY s)
        = Some (Inr (rv, c, s2))"
    using loop child by (subst (asm) sift_loop.simps) simp
  from len1 child double_succ_nz show ?thesis
  proof (cases rule: sift_iteration_cases [where sort_cb = sort_cb and compare_func = compare_func
        and swap = ?swap and ret_value = ECMA_VALUE_EMPTY])
    case (child_error rt)
    with it have "rv = ECMA_VALUE_ERROR" "c = ?c"
      "s2 = ?st1\<lparr>runtime := rt, trace := trace ?st1 @
                  [Read ?c, Read (?c + 1),
                   Invoke (array_p ?st1 ! unat ?c) (array_p ?st1 ! Suc (unat ?c)) COMPARE_ERROR]\<rparr>"
      by auto
    with s par show ?thesis by (simp add: issued_def)
  next
    case (swap_error child1 st1 rt)
    from picked_outcomes [OF swap_error(1)] obtain pk where pk: "trace st1 = trace ?st1 @ pk"
      "pk = [] \<and> child1 = ?c \<and> st1 = ?st1 \<or> (\<exists>n. outcomes pk = [COMPARE_NUMBER n])" by blast
    from swap_error it have r: "rv = ECMA_VALUE_ERROR" "c = child1"
      "s2 = st1\<lparr>runtime := rt, trace := trace st1 @
                  [Read child1, Invoke (array_p ?st1 ! unat child1) ?swap COMPARE_ERROR]\<rparr>"
      by auto
    from pk(2) show ?thesis
    proof
      assume "pk = [] \<and> child1 = ?c \<and> st1 = ?st1"
      with r s par show ?thesis by (simp add: issued_def)
    next
      assume "\<exists>n. outcomes pk = [COMPARE_NUMBER n]"
      with r s pk(1) show ?thesis by (auto simp: issued_def)
    qed
  next
    case (settled child1 st1 n rt)
    from picked_outcomes [OF settled(1)] obtain pk where pk: "trace st1 = trace ?st1 @ pk"
      "pk = [] \<and> child1 = ?c \<and> st1 = ?st1 \<or> (\<exists>n. outcomes pk = [COMPARE_NUMBER n])" by blast
    from settled it have r: "c = child1"
      "s2 = st1\<lparr>runtime := rt, trace := trace st1 @
                  [Read child1, Invoke (array_p ?st1 ! unat child1) ?swap (COMPARE_NUMBER n),
                   Release n]\<rparr>"
      by auto
    from pk(2) r s pk(1) show ?thesis by (auto simp: issued_def)
  next
    case (shifted child1 st1 n rt)
    let ?s1 = "st1\<lparr>array_p := (array_p ?st1)[unat ((child1 - 1) div 2) := array_p ?st1 ! unat child1],
                     runtime := rt, trace := trace st1 @
                  [Read child1, Invoke (array_p ?st1 ! unat child1) ?swap (COMPARE_NUMBER n),
                   Read child1, Write ((child1 - 1) div 2) (array_p ?st1 ! unat child1),
                   Release n]\<rparr>"
    from picked_outcomes [OF shifted(1)] obtain pk where pk: "trace st1 = trace ?st1 @ pk"
      "pk = [] \<and> child1 = ?c \<and> st1 = ?st1 \<or> (\<exists>n. outcomes pk = [COMPARE_NUMBER n])" by blast
    from shifted it
    have rest: "sift_loop sort_cb compare_func right ?swap (child1 * 2 + 1) ECMA_VALUE_EMPTY ?s1
        = Some (Inr (rv, c, s2))" by simp
    have "unat right < length (array_p ?s1)" using len by simp
    from sift_loop_events [OF rest this double_succ_nz]
    obtain evs where "trace s2 = trace ?s1 @ evs" by auto
    with pk s show ?thesis by (auto simp: issued_def)
  qed
qed

lemma build_loop_first_outcome_at:
  assumes pos: "0 < i" and idx: "unat (i - 1) \<le> unat right div 2"
    and len: "unat right < length (array_p st)" and child: "(i - 1) * 2 + 1 \<le> right"
    and run: "build_loop right compare_func sort_cb i st = Some (Inr (rvo, s1))"
  shows "\<exists>r rs. outcomes (issued st s1) = r # rs
           \<and> (r = COMPARE_ERROR \<longrightarrow> rvo = Some ECMA_VALUE_ERROR \<and> array_p s1 = array_p st)"
proof -
  have ir: "i - 1 \<le> right" using idx by (simp add: word_le_nat_alt)
  note step = build_loop_step [OF pos, of right compare_func sort_cb st]
  show ?thesis
  proof (cases "ecma_builtin_helper_array_to_heap (i - 1) right compare_func sort_cb st")
    case None
    with run step show ?thesis by simp
  next
    case (Some r1)
    from to_heap_events [OF ir len Some]
    obtain rv s' evs where r1: "r1 = Inr (rv, s')" "trace s' = trace st @ evs"
      "length (array_p s') = length (array_p st)" by blast
    from to_heap_first_outcome [OF idx len child] Some r1(1)
    obtain r rs where o: "outcomes (issued st s') = r # rs"
      "r = COMPARE_ERROR \<Longrightarrow> rv = ECMA_VALUE_ERROR \<and> array_p s' = array_p st" by blast
    show ?thesis
    proof (cases "rv = ECMA_VALUE_ERROR")
      case True
      with Some r1 run step have "rvo = Some ECMA_VALUE_ERROR" "s1 = s'" by simp_all
      with o show ?thesis by simp
    next
      case False
      with Some r1 run step
      have rest: "build_loop right compare_func sort_cb (i - 1) s' = Some (Inr (rvo, s1))" by simp
      have "unat (i - 1) \<le> Suc (unat right)" using idx by simp
      from build_loop_events [OF this _ rest] len r1(3)
      obtain evs' where "trace s1 = trace s' @ evs'" by auto
      with r1(2) o(1) have "outcomes (issued st s1) = r # rs @ outcomes evs'"
        by (simp add: issued_def)
      with o(2) False show ?thesis by auto
    qed
  qed
qed

text \<open>
  The first phase on more than one element invokes the comparator, in its first call of the
  sift-down routine or, when the last node with a child is the root of a full pair, in its
  second; when the first of the invocations fails, the phase returns the error and the array
  is as it was.
\<close>

lemma build_loop_first_outcome:
  assumes len: "length (array_p st) = Suc (unat right)" and pos: "0 < right"
    and run: "build_loop right compare_func sort_cb (right div 2 + 1) st = Some (Inr (rvo, s1))"
  shows "\<exists>r rs. outcomes (issued st s1) = r # rs
           \<and> (r = COMPARE_ERROR \<longrightarrow> rvo = Some ECMA_VALUE_ERROR \<and> array_p s1 = array_p st)"
proof -
  let ?i = "right div 2"
  have ui: "unat ?i = unat right div 2" by (simp add: unat_div)
  have "unat (?i + 1) \<noteq> 0" by (simp add: unat_half_succ)
  then have p1: "0 < ?i + 1" by (simp add: word_greater_zero_iff unat_eq_0)
  have len': "unat right < length (array_p st)" using len by simp
  have ur: "0 < unat right" using pos by (simp add: word_less_nat_alt)
  show ?thesis
  proof (cases "?i * 2 + 1 \<le> right")
    case True
    show ?thesis
      by (rule build_loop_first_outcome_at [OF p1 _ len' _ run]) (simp_all add: ui True)
  next
    case False
    let ?st0 = "st\<lparr>trace := trace st @ [Read ?i, Write ?i (array_p st ! unat ?i)]\<rparr>"
    have h: "ecma_builtin_helper_array_to_heap ?i right compare_func sort_cb st =
           Some (Inr (ECMA_VALUE_EMPTY, ?st0))"
      by (rule to_heap_no_child [OF _ len' False]) (simp add: ui)
    from run build_loop_step [OF p1, of right compare_func sort_cb st] h
    have rest: "build_loop right compare_func sort_cb ?i ?st0 = Some (Inr (rvo, s1))" by simp
    have nz: "?i \<noteq> 0"
    proof
      assume "?i = 0"
      with False have "\<not> 1 \<le> right" by simp
      with ur show False by (simp add: word_le_nat_alt)
    qed
    then have p0: "0 < ?i" by (simp add: word_greater_zero_iff)
    from nz have u1: "unat (?i - 1) = unat right div 2 - 1"
      by (simp add: unat_minus_one ui)
    from nz have "0 < unat right div 2" using ui by (simp add: unat_eq_0 [symmetric] del: unat_eq_0)
    then have a: "2 * (unat right div 2 - 1) + 1 \<le> unat right" by presburger
    have "unat right < 4294967296" by (rule unat_lt_max)
    with a have b: "2 * (unat right div 2 - 1) + 1 < 4294967296" by (rule le_less_trans)
    have "unat ((?i - 1) * 2 + 1) = (2 * unat (?i - 1) + 1) mod 4294967296"
      by (rule unat_double_succ)
    also have "\<dots> = 2 * (unat right div 2 - 1) + 1" by (simp only: u1 mod_less [OF b])
    finally have "unat ((?i - 1) * 2 + 1) \<le> unat right" using a by (simp only:)
    then have child: "(?i - 1) * 2 + 1 \<le> right" by (simp only: word_le_nat_alt)
    have idx: "unat (?i - 1) \<le> unat right div 2" by (simp add: u1)
    have len0: "unat right < length (array_p ?st0)" using len by simp
    from build_loop_first_outcome_at [OF p0 idx len0 child rest]
    obtain r rs where o: "outcomes (issued ?st0 s1) = r # rs"
      "r = COMPARE_ERROR \<Longrightarrow> rvo = Some ECMA_VALUE_ERROR \<and> array_p s1 = array_p ?st0" by blast
    have "unat ?i \<le> Suc (unat right)" by (simp add: ui)
    from build_loop_events [OF this len0 rest]
    obtain evs where "trace s1 = trace ?st0 @ evs" by auto
    then have "outcomes (issued st s1) = outcomes (issued ?st0 s1)" by (simp add: issued_def)
    with o show ?thesis by auto
  qed
qed

lemma helper_single:
  assumes "length (array_p st) = Suc 0"
  shows "ecma_builtin_helper_array_heap_sort_helper 0 compare_func sort_cb st
           = Some (Inr (ECMA_VALUE_EMPTY,
               st\<lparr>trace := trace st @ [Read 0, Write 0 (array_p st ! 0)]\<rparr>))"
proof -
  let ?st' = "st\<lparr>trace := trace st @ [Read 0, Write 0 (array_p st ! 0)]\<rparr>"
  from assms have ne: "array_p st \<noteq> []" by auto
  have "sift_loop sort_cb compare_func 0 (array_p st ! 0) 1 ECMA_VALUE_EMPTY
          (st\<lparr>trace := trace st @ [Read 0]\<rparr>)
        = Some (Inr (ECMA_VALUE_EMPTY, 1, st\<lparr>trace := trace st @ [Read 0]\<rparr>))"
    by (subst sift_loop.simps) simp
  with ne have "ecma_builtin_helper_array_to_heap 0 0 compare_func sort_cb st
           = Some (Inr (ECMA_VALUE_EMPTY, ?st'))"
    by (simp add: ecma_builtin_helper_array_to_heap_def array_get_def array_set_def)
  then have "build_loop 0 compare_func sort_cb 1 st = Some (Inr (None, ?st'))"
    by (simp add: build_loop.simps)
  then show ?thesis
    by (simp add: ecma_builtin_helper_array_heap_sort_helper_def sort_loop.simps)
qed

text \<open>
  A call of the sort routine that has returned and whose first invocation failed: it made
  no other invocation, it returned the error, and the array is as it was.
\<close>

lemma helper_first_outcome:
  assumes len: "length (array_p st) = Suc (unat right)"
    and run: "ecma_builtin_helper_array_heap_sort_helper right compare_func sort_cb st
                = Some (Inr (rv, s))"
    and out: "outcomes (issued st s) = COMPARE_ERROR # rs"
  shows "rv = ECMA_VALUE_ERROR \<and> array_p s = array_p st \<and> rs = []"
proof -
  have pos: "0 < right"
  proof (rule ccontr)
    assume "\<not> 0 < right"
    then have z: "right = 0" by (simp add: word_greater_zero_iff)
    with len have "length (array_p st) = Suc 0" by simp
    from helper_single [OF this, of compare_func sort_cb] run z out show False
      by (auto simp: issued_def)
  qed
  from helper_events [OF len run]
  obtain evs where e: "trace s = trace st @ evs" "finished right rv evs" by auto
  from finished_outcomes [OF e(2)] e(1) out
  have b: "COMPARE_ERROR \<notin> set (butlast (COMPARE_ERROR # rs))" and rv: "rv = ECMA_VALUE_ERROR"
    by (simp_all add: issued_def)
  from b have rs: "rs = []" by (cases rs) simp_all
  have "array_p s = array_p st"
  proof (cases "build_loop right compare_func sort_cb (right div 2 + 1) st")
    case None
    with run show ?thesis by (simp add: ecma_builtin_helper_array_heap_sort_helper_def)
  next
    case (Some r1)
    have "unat (right div 2 + 1) \<le> Suc (unat right)" by (simp add: unat_half_succ)
    from build_loop_events [OF this _ Some] len
    obtain rvo s1 e1 where r1: "r1 = Inr (rvo, s1)" "trace s1 = trace st @ e1"
      "length (array_p s1) = length (array_p st)" by auto
    from build_loop_first_outcome [OF len pos] Some r1(1)
    obtain r rs1 where o: "outcomes (issued st s1) = r # rs1"
      "r = COMPARE_ERROR \<Longrightarrow> rvo = Some ECMA_VALUE_ERROR \<and> array_p s1 = array_p st" by blast
    show ?thesis
    proof (cases rvo)
      case v: (Some v)
      with run Some r1 have "s = s1"
        by (simp add: ecma_builtin_helper_array_heap_sort_helper_def)
      with o out show ?thesis by simp
    next
      case None
      show ?thesis
      proof (cases "sort_loop compare_func sort_cb right s1")
        case n2: None
        with run Some r1 None show ?thesis
          by (simp add: ecma_builtin_helper_array_heap_sort_helper_def)
      next
        case s2: (Some r2)
        have "unat right < length (array_p s1)" using r1(3) len by simp
        from sort_loop_events [OF order_refl this s2]
        obtain rvo' s' e2 where r2: "r2 = Inr (rvo', s')" "trace s' = trace s1 @ e2" by blast
        with run Some r1 None s2 have "s = s'"
          by (cases rvo') (simp_all add: ecma_builtin_helper_array_heap_sort_helper_def)
        with r2(2) r1(2) o(1) have "outcomes (issued st s) = r # rs1 @ outcomes e2"
          by (simp add: issued_def)
        with out o(2) None show ?thesis by simp
      qed
    qed
  qed
  with rv rs show ?thesis by simp
qed

section \<open>The claims\<close>

subsection \<open>C1: the array stays a permutation\<close>

text \<open>
  Claim C1 as stated, for every array of length \<open>right + 1\<close>, fails when \<open>right\<close> is \<open>2 ^ 31\<close>:
  the sift-down call for index \<open>2 ^ 30 - 1\<close> shifts the last element up, the 32-bit update
  \<^verbatim>\<open>child = child * 2 + 1\<close> wraps \<open>2 ^ 32 + 1\<close> to \<open>1\<close>, the loop goes on at the top of the array,
  and when the third comparison fails \<^verbatim>\<open>swap\<close> is stored at index \<open>0\<close>. The array then holds the
  value \<open>1\<close> twice, where it held it once: it is not a permutation of the array before the call.
\<close>

theorem permutation_lost_counterexample:
  "length huge_array = unat (2147483648 :: uint32) + 1
   \<and> ecma_builtin_helper_array_heap_sort_helper 2147483648 0 (failing_cb 2) (start huge_array)
     = Some (Inr (ECMA_VALUE_ERROR,
         \<lparr>array_p = huge_array[1073741824 := 0, 1073741823 := 1, 0 := 0], runtime = 3,
          trace = [Read 1073741824, Write 1073741824 0,
                   Read 1073741823, Read 2147483647, Read 2147483648,
                   Invoke 0 1 (COMPARE_NUMBER (- 1)), Release (- 1),
                   Read 2147483648, Invoke 1 0 (COMPARE_NUMBER 1),
                   Read 2147483648, Write 1073741823 1, Release 1,
                   Read 1, Read 2, Invoke 0 0 COMPARE_ERROR, Write 0 0]\<rparr>))
   \<and> mset (huge_array[1073741824 := 0, 1073741823 := 1, 0 := 0]) \<noteq> mset huge_array"
proof (intro conjI)
  show "length huge_array = unat (2147483648 :: uint32) + 1" by (simp add: length_huge)
  show "ecma_builtin_helper_array_heap_sort_helper 2147483648 0 (failing_cb 2) (start huge_array)
     = Some (Inr (ECMA_VALUE_ERROR,
         \<lparr>array_p = huge_array[1073741824 := 0, 1073741823 := 1, 0 := 0], runtime = 3,
          trace = [Read 1073741824, Write 1073741824 0,
                   Read 1073741823, Read 2147483647, Read 2147483648,
                   Invoke 0 1 (COMPARE_NUMBER (- 1)), Release (- 1),
                   Read 2147483648, Invoke 1 0 (COMPARE_NUMBER 1),
                   Read 2147483648, Write 1073741823 1, Release 1,
                   Read 1, Read 2, Invoke 0 0 COMPARE_ERROR, Write 0 0]\<rparr>))"
    by (simp add: ecma_builtin_helper_array_heap_sort_helper_def build_loop.simps
        ecma_builtin_helper_array_to_heap_def sift_loop.simps sift_iteration_def
        compare_children_def compare_with_swap_def array_get_def array_set_def
        call_sort_cb_def ecma_free_value_def failing_cb_def start_def
        length_huge huge_nonempty nth_huge nth_list_update)
  have "count (mset (huge_array[1073741824 := 0, 1073741823 := 1, 0 := 0])) 1 = 2"
    by (simp add: mset_update length_huge huge_nonempty nth_huge nth_list_update count_huge)
  with count_huge show "mset (huge_array[1073741824 := 0, 1073741823 := 1, 0 := 0]) \<noteq> mset huge_array"
    by auto
qed

text \<open>
  Claim C1, amended: for every array of length \<open>right + 1\<close> with \<open>right < 2 ^ 31\<close> (so that
  \<^verbatim>\<open>child * 2 + 1\<close> never wraps) and every comparator, whatever it answers and whenever it
  fails, the call returns, with success or with failure, and the array after the call is a
  permutation of the array before it (equal multisets).
\<close>

theorem permutation_preserved:
  assumes "length (array_p st) = unat right + 1" and "unat right < 2 ^ 31"
  shows "\<exists>rv st'. ecma_builtin_helper_array_heap_sort_helper right compare_func sort_cb st
             = Some (Inr (rv, st'))
           \<and> mset (array_p st') = mset (array_p st)"
  using helper_array [of st right compare_func sort_cb] assms by auto

theorem permutation_preserved_witness:
  "length (array_p (start [3, 1, 4, 1, 5])) = unat (4 :: uint32) + 1 \<and> unat (4 :: uint32) < 2 ^ 31
   \<and> (\<exists>rv st'. ecma_builtin_helper_array_heap_sort_helper 4 0 (failing_cb 1) (start [3, 1, 4, 1, 5])
             = Some (Inr (rv, st'))
           \<and> mset (array_p st') = mset (array_p (start [3, 1, 4, 1, 5])))"
  using permutation_preserved [of "start [3, 1, 4, 1, 5]" 4 0 "failing_cb 1"]
  by (simp add: start_def)

subsection \<open>C2: sortedness\<close>

text \<open>
  Claim C2 as stated, for every array, fails when \<open>right\<close> is \<open>2 ^ 32 - 2\<close>: in the sift-down
  call for index \<open>2 ^ 31 - 2\<close> the children are the last two elements; the right one is chosen
  and shifted up, and the 32-bit update \<^verbatim>\<open>child = child * 2 + 1\<close> leads back to the same left
  child, for ever. The routine does not return. The comparator here is the difference of two
  integers, which never fails and whose sign is the usual order.
\<close>

theorem sort_diverges_counterexample:
  "length full_array = unat (4294967294 :: uint32) + 1
   \<and> sign_order difference_cb 0 (\<le>)
   \<and> ecma_builtin_helper_array_heap_sort_helper 4294967294 0 difference_cb (start full_array) = None"
proof (intro conjI)
  show "length full_array = unat (4294967294 :: uint32) + 1" by (simp add: length_full)
  show "sign_order difference_cb 0 (\<le>)" by (rule sign_order_difference)
  show "ecma_builtin_helper_array_heap_sort_helper 4294967294 0 difference_cb (start full_array) = None"
    using build_loop_diverges by (simp add: ecma_builtin_helper_array_heap_sort_helper_def)
qed

text \<open>
  Claim C2, amended: for every array of length \<open>right + 1\<close> with \<open>right < 2 ^ 31\<close> and every
  comparator that never fails and whose sign follows a total order \<open>le\<close> on the values
  (total and transitive; the number returned is \<open>\<le> 0\<close> exactly when the first operand is
  below or equal to the second, and \<open>\<ge> 0\<close> exactly when the second is below or equal to the
  first), the call returns \<^verbatim>\<open>ECMA_VALUE_EMPTY\<close> and in the resulting array the comparator
  answers \<open>\<le> 0\<close> on every adjacent pair of indices \<open>i\<close>, \<open>i + 1\<close> in \<open>[0, right]\<close>.
\<close>

theorem sorted_on_success:
  assumes "length (array_p st) = unat right + 1" and "unat right < 2 ^ 31"
    and "sign_order sort_cb compare_func le"
  shows "\<exists>st'. ecma_builtin_helper_array_heap_sort_helper right compare_func sort_cb st
             = Some (Inr (ECMA_VALUE_EMPTY, st'))
           \<and> (\<forall>i < unat right. \<forall>rt. \<exists>n rt'.
                 sort_cb (array_p st' ! i) (array_p st' ! Suc i) compare_func rt = (COMPARE_NUMBER n, rt')
                 \<and> n \<le> 0)"
proof -
  from helper_array [of st right compare_func sort_cb] assms
  obtain st' where r: "ecma_builtin_helper_array_heap_sort_helper right compare_func sort_cb st
             = Some (Inr (ECMA_VALUE_EMPTY, st'))"
    and l: "length (array_p st') = length (array_p st)" and s: "sorted_wrt le (array_p st')"
    by auto
  have "\<exists>n rt'. sort_cb (array_p st' ! i) (array_p st' ! Suc i) compare_func rt = (COMPARE_NUMBER n, rt')
      \<and> n \<le> 0" if "i < unat right" for i rt
  proof -
    from that l assms(1) have "Suc i < length (array_p st')" by simp
    with s have "le (array_p st' ! i) (array_p st' ! Suc i)" by (simp add: sorted_wrt_nth_less)
    with sign_order_result [OF assms(3), of "array_p st' ! i" "array_p st' ! Suc i" rt]
    show ?thesis by metis
  qed
  with r show ?thesis by blast
qed

theorem sorted_on_success_witness:
  "length (array_p (start [3, 1, 4, 1, 5])) = unat (4 :: uint32) + 1 \<and> unat (4 :: uint32) < 2 ^ 31
   \<and> sign_order difference_cb 0 (\<le>)
   \<and> (\<exists>st'. ecma_builtin_helper_array_heap_sort_helper 4 0 difference_cb (start [3, 1, 4, 1, 5])
             = Some (Inr (ECMA_VALUE_EMPTY, st'))
           \<and> (\<forall>i < unat (4 :: uint32). \<forall>rt. \<exists>n rt'.
                 difference_cb (array_p st' ! i) (array_p st' ! Suc i) 0 rt = (COMPARE_NUMBER n, rt')
                 \<and> n \<le> 0))"
  using sorted_on_success [of "start [3, 1, 4, 1, 5]" 4 difference_cb 0 "(\<le>)"]
    sign_order_difference [of 0]
  by (simp add: start_def)

subsection \<open>C3: the value held aside is written back\<close>

text \<open>
  Claim C3: a call of the sift-down routine with \<open>index \<le> right\<close> (on an array with at least
  \<open>right + 1\<close> elements) never faults, and whenever it returns, however its loop ended (the
  loop condition became false, the child was not greater than \<^verbatim>\<open>swap\<close>, or the comparator
  failed), the state returned is the state \<open>s\<close> at the end of the loop with exactly one more
  event: the write of \<^verbatim>\<open>swap\<close>, the value read from \<^verbatim>\<open>array_p[index]\<close>, to index
  \<open>(child - 1) / 2\<close>, for the final value of \<^verbatim>\<open>child\<close>. That index is at most \<open>right\<close> and
  afterwards holds \<^verbatim>\<open>swap\<close>. The value returned is \<^verbatim>\<open>ECMA_VALUE_ERROR\<close> exactly when an
  invocation of the comparator failed, so the failure path is among the paths covered. The call
  returns whenever \<open>right < 2 ^ 31\<close>.
\<close>

theorem swap_written_back:
  assumes "index \<le> right" and "unat right < length (array_p st)"
  shows "case ecma_builtin_helper_array_to_heap index right compare_func sort_cb st of
           None \<Rightarrow> \<not> unat right < 2 ^ 31
         | Some (Inl e) \<Rightarrow> False
         | Some (Inr (rv, st')) \<Rightarrow>
             (\<exists>child s.
                sift_loop sort_cb compare_func right (array_p st ! unat index) (index * 2 + 1)
                  ECMA_VALUE_EMPTY (st\<lparr>trace := trace st @ [Read index]\<rparr>) = Some (Inr (rv, child, s))
                \<and> (child - 1) div 2 \<le> right
                \<and> st' = s\<lparr>array_p := (array_p s)[unat ((child - 1) div 2) := array_p st ! unat index],
                         trace := trace s @ [Write ((child - 1) div 2) (array_p st ! unat index)]\<rparr>
                \<and> array_p st' ! unat ((child - 1) div 2) = array_p st ! unat index)
             \<and> (rv = ECMA_VALUE_ERROR \<longleftrightarrow> COMPARE_ERROR \<in> set (outcomes (issued st st')))"
  using assms
proof (cases rule: to_heap_cases [where sort_cb = sort_cb and compare_func = compare_func])
  case diverges
  then show ?thesis by simp
next
  case (returns rv c s)
  from returns(4,5) assms(2) have "unat ((c - 1) div 2) < length (array_p s)"
    by (simp add: word_le_nat_alt)
  moreover from to_heap_events [OF assms returns(2)]
  obtain evs where "trace (s\<lparr>array_p := (array_p s)[unat ((c - 1) div 2) := array_p st ! unat index],
        trace := trace s @ [Write ((c - 1) div 2) (array_p st ! unat index)]\<rparr>) = trace st @ evs"
    and "finished right rv evs" by auto
  then have "rv = ECMA_VALUE_ERROR \<longleftrightarrow> COMPARE_ERROR \<in> set (outcomes (issued st
      (s\<lparr>array_p := (array_p s)[unat ((c - 1) div 2) := array_p st ! unat index],
        trace := trace s @ [Write ((c - 1) div 2) (array_p st ! unat index)]\<rparr>)))"
    using finished_outcomes [of right rv evs] by (simp add: issued_append)
  ultimately show ?thesis using returns by simp
qed

theorem swap_written_back_witness:
  "(0 :: uint32) \<le> 4 \<and> unat (4 :: uint32) < length (array_p (start [3, 1, 4, 1, 5]))
   \<and> (case ecma_builtin_helper_array_to_heap 0 4 0 (failing_cb 2) (start [3, 1, 4, 1, 5]) of
           None \<Rightarrow> \<not> unat (4 :: uint32) < 2 ^ 31
         | Some (Inl e) \<Rightarrow> False
         | Some (Inr (rv, st')) \<Rightarrow>
             (\<exists>child s.
                sift_loop (failing_cb 2) 0 4 (array_p (start [3, 1, 4, 1, 5]) ! unat (0 :: uint32)) (0 * 2 + 1)
                  ECMA_VALUE_EMPTY ((start [3, 1, 4, 1, 5])\<lparr>trace := trace (start [3, 1, 4, 1, 5]) @ [Read 0]\<rparr>)
                  = Some (Inr (rv, child, s))
                \<and> (child - 1) div 2 \<le> 4
                \<and> st' = s\<lparr>array_p := (array_p s)[unat ((child - 1) div 2) :=
                                array_p (start [3, 1, 4, 1, 5]) ! unat (0 :: uint32)],
                         trace := trace s @ [Write ((child - 1) div 2)
                                (array_p (start [3, 1, 4, 1, 5]) ! unat (0 :: uint32))]\<rparr>
                \<and> array_p st' ! unat ((child - 1) div 2)
                    = array_p (start [3, 1, 4, 1, 5]) ! unat (0 :: uint32))
             \<and> (rv = ECMA_VALUE_ERROR \<longleftrightarrow>
                  COMPARE_ERROR \<in> set (outcomes (issued (start [3, 1, 4, 1, 5]) st'))))"
  using swap_written_back [where index = 0 and right = 4 and st = "start [3, 1, 4, 1, 5]"
      and compare_func = 0 and sort_cb = "failing_cb 2"]
  by (simp add: start_def)

subsection \<open>C4: which child is compared with the value held aside\<close>

text \<open>
  Claim C4 as stated fails when the comparator answers zero on the two children: the test is
  \<^verbatim>\<open>ecma_get_number_from_value (child_compare_value) < ECMA_NUMBER_ZERO\<close>, so on a tie
  \<^verbatim>\<open>child\<close> stays at the left child. Here the children \<open>50\<close> and \<open>51\<close> at indices \<open>1\<close> and \<open>2\<close>
  tie under a comparator that looks at the tens only; the loop body goes on with index \<open>1\<close> and
  compares \<open>50\<close> with \<^verbatim>\<open>swap\<close>.
\<close>

theorem tie_keeps_left_child_counterexample:
  "tens_cb 50 51 0 0 = (COMPARE_NUMBER 0, 1)
   \<and> compare_children tens_cb 0 2 1 (start [90, 50, 51])
     = Inr (Continue 1 \<lparr>array_p = [90, 50, 51], runtime = 1,
              trace = [Read 1, Read 2, Invoke 50 51 (COMPARE_NUMBER 0), Release 0]\<rparr>)
   \<and> sift_iteration tens_cb 0 2 90 1 ECMA_VALUE_EMPTY (start [90, 50, 51])
     = Inr (Break ECMA_VALUE_EMPTY 1 \<lparr>array_p = [90, 50, 51], runtime = 2,
              trace = [Read 1, Read 2, Invoke 50 51 (COMPARE_NUMBER 0), Release 0,
                       Read 1, Invoke 50 90 (COMPARE_NUMBER (- 4)), Release (- 4)]\<rparr>)"
  by (simp add: sift_iteration_def compare_children_def compare_with_swap_def array_get_def
      array_set_def call_sort_cb_def ecma_free_value_def tens_cb_def start_def)

text \<open>
  Claim C4, amended: in an iteration of the loop in which a right sibling exists
  (\<open>child < right\<close>) and the comparator, invoked on \<^verbatim>\<open>array_p[child]\<close> and \<^verbatim>\<open>array_p[child + 1]\<close>,
  returns a number \<open>n\<close>, lines 41 to 61 go on with the right sibling \<open>child + 1\<close> when \<open>n < 0\<close>
  and with \<open>child\<close> itself when \<open>n \<ge> 0\<close>; the number is released, and the next two events of
  the iteration are the read of the element at the index chosen and the invocation of the
  comparator on that element and \<^verbatim>\<open>swap\<close>.
\<close>

theorem greater_child_chosen:
  assumes "child < right" and "child \<noteq> 0" and "unat right < length (array_p st)"
    and "sort_cb (array_p st ! unat child) (array_p st ! unat (child + 1)) compare_func (runtime st)
           = (COMPARE_NUMBER n, rt)"
  shows "compare_children sort_cb compare_func right child st
           = Inr (Continue (if n < 0 then child + 1 else child)
               (st\<lparr>runtime := rt, trace := trace st @
                  [Read child, Read (child + 1),
                   Invoke (array_p st ! unat child) (array_p st ! unat (child + 1)) (COMPARE_NUMBER n),
                   Release n]\<rparr>))
         \<and> (\<exists>it. sift_iteration sort_cb compare_func right swap child ret_value st = Inr it
              \<and> take 6 (issued st (state_of it)) =
                  [Read child, Read (child + 1),
                   Invoke (array_p st ! unat child) (array_p st ! unat (child + 1)) (COMPARE_NUMBER n),
                   Release n,
                   Read (if n < 0 then child + 1 else child),
                   Invoke (array_p st ! unat (if n < 0 then child + 1 else child)) swap
                     (fst (sort_cb (array_p st ! unat (if n < 0 then child + 1 else child)) swap
                             compare_func rt))])"
proof -
  let ?c1 = "if n < 0 then child + 1 else child"
  let ?st1 = "st\<lparr>runtime := rt, trace := trace st @
                  [Read child, Read (child + 1),
                   Invoke (array_p st ! unat child) (array_p st ! unat (child + 1)) (COMPARE_NUMBER n),
                   Release n]\<rparr>"
  note s = unat_succ_below [OF assms(1)]
  have cc: "compare_children sort_cb compare_func right child st = Inr (Continue ?c1 ?st1)"
    using assms by (simp add: compare_children_eq s)
  have pk: "picked sort_cb compare_func right child st ?c1 ?st1"
    using assms(1,4) by (auto simp: picked_def s)
  from assms(1) have le: "child \<le> right" by simp
  note b = picked_bounds [OF pk le assms(2)]
  have len1: "unat right < length (array_p ?st1)" using assms(3) by simp
  obtain r rt' where r: "sort_cb (array_p st ! unat ?c1) swap compare_func rt = (r, rt')"
    by (cases "sort_cb (array_p st ! unat ?c1) swap compare_func rt")
  have "\<exists>it. compare_with_swap sort_cb compare_func right swap ?c1 ret_value ?st1 = Inr it
      \<and> take 6 (issued st (state_of it)) =
                  [Read child, Read (child + 1),
                   Invoke (array_p st ! unat child) (array_p st ! unat (child + 1)) (COMPARE_NUMBER n),
                   Release n, Read ?c1, Invoke (array_p st ! unat ?c1) swap r]"
    unfolding compare_with_swap_eq [OF len1 b] using r
    by (cases r) (simp_all add: issued_def)
  with cc r show ?thesis by (simp add: sift_iteration_def)
qed

theorem greater_child_chosen_witness:
  "(1 :: uint32) < 2 \<and> (1 :: uint32) \<noteq> 0 \<and> unat (2 :: uint32) < length (array_p (start [90, 50, 61]))
   \<and> tens_cb (array_p (start [90, 50, 61]) ! unat (1 :: uint32))
        (array_p (start [90, 50, 61]) ! unat (1 + 1 :: uint32)) 0 (runtime (start [90, 50, 61]))
      = (COMPARE_NUMBER (- 1), 1)
   \<and> compare_children tens_cb 0 2 1 (start [90, 50, 61])
           = Inr (Continue (if (- 1 :: int) < 0 then 1 + 1 else 1)
               ((start [90, 50, 61])\<lparr>runtime := 1, trace := trace (start [90, 50, 61]) @
                  [Read 1, Read (1 + 1),
                   Invoke (array_p (start [90, 50, 61]) ! unat (1 :: uint32))
                     (array_p (start [90, 50, 61]) ! unat (1 + 1 :: uint32)) (COMPARE_NUMBER (- 1)),
                   Release (- 1)]\<rparr>))
   \<and> (\<exists>it. sift_iteration tens_cb 0 2 90 1 ECMA_VALUE_EMPTY (start [90, 50, 61]) = Inr it
              \<and> take 6 (issued (start [90, 50, 61]) (state_of it)) =
                  [Read 1, Read (1 + 1),
                   Invoke (array_p (start [90, 50, 61]) ! unat (1 :: uint32))
                     (array_p (start [90, 50, 61]) ! unat (1 + 1 :: uint32)) (COMPARE_NUMBER (- 1)),
                   Release (- 1),
                   Read (if (- 1 :: int) < 0 then 1 + 1 else 1),
                   Invoke (array_p (start [90, 50, 61]) ! unat (if (- 1 :: int) < 0 then 1 + 1 else 1 :: uint32)) 90
                     (fst (tens_cb (array_p (start [90, 50, 61]) ! unat (if (- 1 :: int) < 0 then 1 + 1 else 1 :: uint32)) 90
                             0 1))])"
  using greater_child_chosen [where child = 1 and right = 2 and st = "start [90, 50, 61]"
      and sort_cb = tens_cb and compare_func = 0 and n = "- 1" and rt = 1 and swap = 90
      and ret_value = ECMA_VALUE_EMPTY]
  by (simp add: start_def tens_cb_def)

subsection \<open>C5: the first failure ends the sort\<close>

text \<open>
  Claim C5, for a call of the sort routine on an array of \<open>right + 1\<close> elements and for every
  comparator. The call never faults. When it returns, only the last of its invocations can
  have failed (once an invocation fails, no further invocation is made), and it returns
  \<^verbatim>\<open>ECMA_VALUE_ERROR\<close> exactly when some invocation failed; it returns whenever
  \<open>right < 2 ^ 31\<close>. For every \<open>right\<close>, and whether or not the call would return otherwise: when
  the call is observed, after any number \<open>n\<close> of tests of a loop condition, in a state in which
  some invocation has reported failure, then it has returned \<^verbatim>\<open>ECMA_VALUE_ERROR\<close>, in this
  state. What is observed is this call: an observed result is the result of the call, and
  every result of the call is observed after some number of tests.
\<close>

theorem first_failure_aborts:
  assumes "length (array_p st) = unat right + 1"
  shows "(case ecma_builtin_helper_array_heap_sort_helper right compare_func sort_cb st of
            None \<Rightarrow> \<not> unat right < 2 ^ 31
          | Some (Inl e) \<Rightarrow> False
          | Some (Inr (rv, st')) \<Rightarrow>
              COMPARE_ERROR \<notin> set (butlast (outcomes (issued st st')))
              \<and> (rv = ECMA_VALUE_ERROR \<longleftrightarrow> COMPARE_ERROR \<in> set (outcomes (issued st st'))))
       \<and> (\<forall>n s. observed (array_heap_sort_helper_upto n right compare_func sort_cb st) = Some s
             \<longrightarrow> COMPARE_ERROR \<in> set (outcomes (issued st s))
             \<longrightarrow> ecma_builtin_helper_array_heap_sort_helper right compare_func sort_cb st
                   = Some (Inr (ECMA_VALUE_ERROR, s)))
       \<and> (\<forall>n res. array_heap_sort_helper_upto n right compare_func sort_cb st = Done res
             \<longrightarrow> ecma_builtin_helper_array_heap_sort_helper right compare_func sort_cb st = Some res)
       \<and> (\<forall>res. ecma_builtin_helper_array_heap_sort_helper right compare_func sort_cb st = Some res
             \<longrightarrow> (\<exists>n. array_heap_sort_helper_upto n right compare_func sort_cb st = Done res))"
proof (intro conjI allI impI)
  show "case ecma_builtin_helper_array_heap_sort_helper right compare_func sort_cb st of
            None \<Rightarrow> \<not> unat right < 2 ^ 31
          | Some (Inl e) \<Rightarrow> False
          | Some (Inr (rv, st')) \<Rightarrow>
              COMPARE_ERROR \<notin> set (butlast (outcomes (issued st st')))
              \<and> (rv = ECMA_VALUE_ERROR \<longleftrightarrow> COMPARE_ERROR \<in> set (outcomes (issued st st')))"
  proof (cases "ecma_builtin_helper_array_heap_sort_helper right compare_func sort_cb st")
    case None
    have "\<not> unat right < 2147483648"
    proof
      assume "unat right < 2147483648"
      from helper_array [OF _ this, of st compare_func sort_cb] assms None show False by simp
    qed
    with None show ?thesis by simp
  next
    case (Some res)
    from helper_events [OF _ Some] assms
    obtain rv st' evs where "res = Inr (rv, st')" "trace st' = trace st @ evs" "finished right rv evs"
      by auto
    with Some finished_outcomes [of right rv evs] show ?thesis by (simp add: issued_append)
  qed
next
  fix n s
  assume obs: "observed (array_heap_sort_helper_upto n right compare_func sort_cb st) = Some s"
    and failed: "COMPARE_ERROR \<in> set (outcomes (issued st s))"
  show "ecma_builtin_helper_array_heap_sort_helper right compare_func sort_cb st
          = Some (Inr (ECMA_VALUE_ERROR, s))"
  proof (cases "array_heap_sort_helper_upto n right compare_func sort_cb st")
    case (Running s')
    with obs have "s' = s" by simp
    with helper_upto_Running [OF _ Running] assms
    obtain evs where "trace s = trace st @ evs" "calm right evs" by auto
    with failed show ?thesis by (simp add: issued_append calm_def)
  next
    case (Done res)
    show ?thesis
    proof (cases res)
      case (Inl e)
      with Done obs show ?thesis by simp
    next
      case (Inr p)
      obtain rv s' where p: "p = (rv, s')" by (cases p)
      with Done Inr obs have "s' = s" by simp
      with helper_upto_Done [OF Done] Inr p
      have run: "ecma_builtin_helper_array_heap_sort_helper right compare_func sort_cb st
                   = Some (Inr (rv, s))" by simp
      from helper_events [OF _ run] assms
      obtain evs where "trace s = trace st @ evs" "finished right rv evs" by auto
      with finished_outcomes [of right rv evs] failed have "rv = ECMA_VALUE_ERROR"
        by (simp add: issued_append)
      with run show ?thesis by simp
    qed
  qed
next
  fix n res
  assume "array_heap_sort_helper_upto n right compare_func sort_cb st = Done res"
  then show "ecma_builtin_helper_array_heap_sort_helper right compare_func sort_cb st = Some res"
    by (rule helper_upto_Done)
next
  fix res
  assume "ecma_builtin_helper_array_heap_sort_helper right compare_func sort_cb st = Some res"
  then show "\<exists>n. array_heap_sort_helper_upto n right compare_func sort_cb st = Done res"
    by (rule helper_upto_complete)
qed

theorem first_failure_aborts_witness:
  "length (array_p (start [3, 1, 4, 1, 5])) = unat (4 :: uint32) + 1
   \<and> (case ecma_builtin_helper_array_heap_sort_helper 4 0 (failing_cb 1) (start [3, 1, 4, 1, 5]) of
           None \<Rightarrow> \<not> unat (4 :: uint32) < 2 ^ 31
         | Some (Inl e) \<Rightarrow> False
         | Some (Inr (rv, st')) \<Rightarrow>
             COMPARE_ERROR \<notin> set (butlast (outcomes (issued (start [3, 1, 4, 1, 5]) st')))
             \<and> (rv = ECMA_VALUE_ERROR \<longleftrightarrow> COMPARE_ERROR \<in> set (outcomes (issued (start [3, 1, 4, 1, 5]) st'))))
   \<and> observed (array_heap_sort_helper_upto 1 4 0 (failing_cb 1) (start [3, 1, 4, 1, 5]))
       = Some \<lparr>array_p = [3, 1, 4, 1, 5], runtime = 2,
               trace = [Read 2, Write 2 4, Read 1, Read 3, Read 4,
                        Invoke 1 5 (COMPARE_NUMBER (- 4)), Release (- 4),
                        Read 4, Invoke 5 1 COMPARE_ERROR, Write 1 1]\<rparr>
   \<and> COMPARE_ERROR \<in> set (outcomes (issued (start [3, 1, 4, 1, 5])
        \<lparr>array_p = [3, 1, 4, 1, 5], runtime = 2 :: nat,
         trace = [Read 2, Write 2 4, Read 1, Read 3, Read 4,
                  Invoke 1 5 (COMPARE_NUMBER (- 4)), Release (- 4),
                  Read 4, Invoke 5 1 COMPARE_ERROR, Write 1 (1 :: int)]\<rparr>))
   \<and> ecma_builtin_helper_array_heap_sort_helper 4 0 (failing_cb 1) (start [3, 1, 4, 1, 5])
       = Some (Inr (ECMA_VALUE_ERROR,
           \<lparr>array_p = [3, 1, 4, 1, 5], runtime = 2,
            trace = [Read 2, Write 2 4, Read 1, Read 3, Read 4,
                     Invoke 1 5 (COMPARE_NUMBER (- 4)), Release (- 4),
                     Read 4, Invoke 5 1 COMPARE_ERROR, Write 1 1]\<rparr>))"
proof -
  let ?s = "\<lparr>array_p = [3, 1, 4, 1, 5], runtime = 2 :: nat,
         trace = [Read 2, Write 2 4, Read 1, Read 3, Read 4,
                  Invoke 1 5 (COMPARE_NUMBER (- 4)), Release (- 4),
                  Read 4, Invoke 5 1 COMPARE_ERROR, Write 1 (1 :: int)]\<rparr>"
  have len: "length (array_p (start [3, 1, 4, 1, 5])) = unat (4 :: uint32) + 1"
    by (simp add: start_def)
  have obs: "observed (array_heap_sort_helper_upto 1 4 0 (failing_cb 1) (start [3, 1, 4, 1, 5]))
      = Some ?s"
    by (simp add: array_heap_sort_helper_upto_def build_loop_upto.simps array_to_heap_upto_def
        sift_iteration_def compare_children_def compare_with_swap_def array_get_def array_set_def
        call_sort_cb_def ecma_free_value_def failing_cb_def start_def
        word_le_nat_alt word_less_nat_alt)
  have failed: "COMPARE_ERROR \<in> set (outcomes (issued (start [3, 1, 4, 1, 5]) ?s))"
    by (simp add: issued_def start_def)
  note inst = first_failure_aborts [OF len, where compare_func = 0 and sort_cb = "failing_cb 1"]
  from inst [THEN conjunct1] inst [THEN conjunct2, THEN conjunct1, rule_format, OF obs failed]
    len obs failed
  show ?thesis by simp
qed

subsection \<open>C6: failure of the first invocation\<close>

text \<open>
  Claim C6: let the array have \<open>right + 1\<close> elements, and let the call of the sort routine be
  observed, after any number \<open>n\<close> of tests of a loop condition, in a state \<open>s\<close> in which the first
  invocation of the comparator made by the call has reported failure, whatever the
  comparator does on other operands or in other states of the runtime. Then the routine has
  returned \<^verbatim>\<open>ECMA_VALUE_ERROR\<close>, in this state; the array is the array before the call, slot
  by slot; and that invocation is the only one of the call. No bound on \<open>right\<close> is needed.
\<close>

theorem immediate_failure_unchanged:
  assumes "length (array_p st) = unat right + 1"
    and "observed (array_heap_sort_helper_upto n right compare_func sort_cb st) = Some s"
    and "outcomes (issued st s) = COMPARE_ERROR # rs"
  shows "ecma_builtin_helper_array_heap_sort_helper right compare_func sort_cb st
           = Some (Inr (ECMA_VALUE_ERROR, s))
         \<and> array_p s = array_p st \<and> rs = []"
proof (cases "array_heap_sort_helper_upto n right compare_func sort_cb st")
  case (Running s')
  with assms(2) have "s' = s" by simp
  with helper_upto_Running [OF _ Running] assms(1)
  obtain evs where "trace s = trace st @ evs" "calm right evs" by auto
  with assms(3) show ?thesis by (simp add: issued_def calm_def)
next
  case (Done res)
  show ?thesis
  proof (cases res)
    case (Inl e)
    with Done assms(2) show ?thesis by simp
  next
    case (Inr p)
    obtain rv s' where p: "p = (rv, s')" by (cases p)
    with Done Inr assms(2) have "s' = s" by simp
    with helper_upto_Done [OF Done] Inr p
    have run: "ecma_builtin_helper_array_heap_sort_helper right compare_func sort_cb st
                 = Some (Inr (rv, s))" by simp
    from helper_first_outcome [OF _ run assms(3)] assms(1) run show ?thesis by simp
  qed
qed

theorem immediate_failure_unchanged_witness:
  "length (array_p (start [3, 1, 4, 1, 5])) = unat (4 :: uint32) + 1
   \<and> observed (array_heap_sort_helper_upto 1 4 0 fussy_cb (start [3, 1, 4, 1, 5]))
       = Some \<lparr>array_p = [3, 1, 4, 1, 5], runtime = 1,
               trace = [Read 2, Write 2 4, Read 1, Read 3, Read 4, Invoke 1 5 COMPARE_ERROR,
                        Write 1 1]\<rparr>
   \<and> outcomes (issued (start [3, 1, 4, 1, 5])
        \<lparr>array_p = [3, 1, 4, 1, 5], runtime = 1 :: nat,
         trace = [Read 2, Write 2 4, Read 1, Read 3, Read 4, Invoke 1 5 COMPARE_ERROR,
                  Write 1 1]\<rparr>) = COMPARE_ERROR # []
   \<and> fst (fussy_cb 5 1 0 0) = COMPARE_NUMBER 4
   \<and> ecma_builtin_helper_array_heap_sort_helper 4 0 fussy_cb (start [3, 1, 4, 1, 5])
       = Some (Inr (ECMA_VALUE_ERROR,
           \<lparr>array_p = [3, 1, 4, 1, 5], runtime = 1,
            trace = [Read 2, Write 2 4, Read 1, Read 3, Read 4, Invoke 1 5 COMPARE_ERROR,
                     Write 1 1]\<rparr>))
   \<and> array_p \<lparr>array_p = [3, 1, 4, 1, 5], runtime = 1 :: nat,
         trace = [Read 2, Write 2 4, Read 1, Read 3, Read 4, Invoke 1 5 COMPARE_ERROR,
                  Write 1 (1 :: int)]\<rparr> = array_p (start [3, 1, 4, 1, 5])"
proof -
  let ?s = "\<lparr>array_p = [3, 1, 4, 1, 5], runtime = 1 :: nat,
         trace = [Read 2, Write 2 4, Read 1, Read 3, Read 4, Invoke 1 5 COMPARE_ERROR,
                  Write 1 (1 :: int)]\<rparr>"
  have len: "length (array_p (start [3, 1, 4, 1, 5])) = unat (4 :: uint32) + 1"
    by (simp add: start_def)
  have obs: "observed (array_heap_sort_helper_upto 1 4 0 fussy_cb (start [3, 1, 4, 1, 5])) = Some ?s"
    by (simp add: array_heap_sort_helper_upto_def build_loop_upto.simps array_to_heap_upto_def
        sift_iteration_def compare_children_def compare_with_swap_def array_get_def array_set_def
        call_sort_cb_def ecma_free_value_def fussy_cb_def start_def
        word_le_nat_alt word_less_nat_alt)
  have out: "outcomes (issued (start [3, 1, 4, 1, 5]) ?s) = COMPARE_ERROR # []"
    by (simp add: issued_def start_def)
  from immediate_failure_unchanged [OF len obs out] len obs out show ?thesis
    by (simp add: fussy_cb_def)
qed

subsection \<open>C7: every numeric outcome is released once\<close>

text \<open>
  Claim C7 as stated, with the release immediately after the sign has been consulted, fails
  on the path that shifts the child up. For the array \<open>[3, 5]\<close>, index \<open>0\<close> and \<open>right = 1\<close>
  the comparison of \<open>array_p[1] = 5\<close> with \<open>swap = 3\<close> returns the number \<open>2\<close>; its sign is tested
  on line 76, then line 86 reads \<open>array_p[1]\<close> and writes it to \<open>array_p[0]\<close>, and only line 91
  releases the number. The events of the call show the read and the write between the
  invocation and the release, and the monitor that wants the release as the first event
  after the invocation rejects them. (It accepts the events of the same call on the array
  \<open>[5, 3]\<close>, which releases the number on line 79 and leaves the loop.)
\<close>

theorem release_after_copy_counterexample:
  "ecma_builtin_helper_array_to_heap 0 1 0 difference_cb (start [3, 5])
     = Some (Inr (ECMA_VALUE_EMPTY,
         \<lparr>array_p = [5, 3], runtime = 1,
          trace = [Read 0, Read 1, Invoke 5 3 (COMPARE_NUMBER 2),
                   Read 1, Write 0 5, Release 2, Write 1 3]\<rparr>))
   \<and> \<not> released_immediately
         [Read 0, Read 1, Invoke 5 3 (COMPARE_NUMBER 2), Read 1, Write 0 5, Release 2, Write 1 (3 :: int)]
   \<and> ecma_builtin_helper_array_to_heap 0 1 0 difference_cb (start [5, 3])
     = Some (Inr (ECMA_VALUE_EMPTY,
         \<lparr>array_p = [5, 3], runtime = 1,
          trace = [Read 0, Read 1, Invoke 3 5 (COMPARE_NUMBER (- 2)), Release (- 2), Write 0 5]\<rparr>))
   \<and> released_immediately
         [Read 0, Read 1, Invoke 3 5 (COMPARE_NUMBER (- 2)), Release (- 2), Write 0 (5 :: int)]"
  by (simp add: ecma_builtin_helper_array_to_heap_def sift_loop.simps sift_iteration_def
      compare_children_def compare_with_swap_def array_get_def array_set_def
      call_sort_cb_def ecma_free_value_def difference_cb_def start_def released_immediately_def
      word_le_nat_alt word_less_nat_alt)

text \<open>
  Claim C7, amended: in the events of a call of the sift-down routine, every number value
  returned by \<^verbatim>\<open>sort_cb\<close> is passed to \<^verbatim>\<open>ecma_free_value\<close> exactly once, before the next
  invocation of \<^verbatim>\<open>sort_cb\<close> and before the return; the release is the first event after the
  invocation, or it comes after the copy of a child to its parent (one read of
  \<^verbatim>\<open>array_p[c]\<close>, then one write of \<^verbatim>\<open>array_p[(c - 1) / 2]\<close>, line 86), which the path
  that shifts the child up makes between the test of the sign and the release. Nothing else
  is ever released, an error value is not released, and nothing is held when the call
  returns, with success or with failure. The call never faults and returns whenever
  \<open>right < 2 ^ 31\<close>. The same holds of a call that does not return: in every state in which
  the call is observed, after any number \<open>n\<close> of tests of the loop condition, the events so
  far keep this discipline and nothing is held. What is observed is this call: an observed
  result is the result of the call, and every result of the call is observed after some
  number of tests.
\<close>

theorem outcomes_released_once:
  assumes "index \<le> right" and "unat right < length (array_p st)"
  shows "(case ecma_builtin_helper_array_to_heap index right compare_func sort_cb st of
            None \<Rightarrow> \<not> unat right < 2 ^ 31
          | Some (Inl e) \<Rightarrow> False
          | Some (Inr (rv, st')) \<Rightarrow> released_exactly_once (issued st st'))
       \<and> (\<forall>n s. observed (array_to_heap_upto n index right compare_func sort_cb st) = Some s
             \<longrightarrow> released_exactly_once (issued st s))
       \<and> (\<forall>n res. array_to_heap_upto n index right compare_func sort_cb st = Done res
             \<longrightarrow> ecma_builtin_helper_array_to_heap index right compare_func sort_cb st = Some res)
       \<and> (\<forall>res. ecma_builtin_helper_array_to_heap index right compare_func sort_cb st = Some res
             \<longrightarrow> (\<exists>n. array_to_heap_upto n index right compare_func sort_cb st = Done res))"
proof (intro conjI allI impI)
  show "case ecma_builtin_helper_array_to_heap index right compare_func sort_cb st of
            None \<Rightarrow> \<not> unat right < 2 ^ 31
          | Some (Inl e) \<Rightarrow> False
          | Some (Inr (rv, st')) \<Rightarrow> released_exactly_once (issued st st')"
  proof (cases "ecma_builtin_helper_array_to_heap index right compare_func sort_cb st")
    case None
    have "\<not> unat right < 2147483648"
    proof
      assume "unat right < 2147483648"
      with assms obtain rv st' where
        "ecma_builtin_helper_array_to_heap index right compare_func sort_cb st = Some (Inr (rv, st'))"
        by (rule to_heap_array)
      with None show False by simp
    qed
    with None show ?thesis by simp
  next
    case (Some res)
    from to_heap_events [OF assms Some]
    obtain rv st' evs where "res = Inr (rv, st')" "trace st' = trace st @ evs" "finished right rv evs"
      by auto
    with Some finished_released [of right rv evs] show ?thesis by (simp add: issued_append)
  qed
next
  fix n s
  assume obs: "observed (array_to_heap_upto n index right compare_func sort_cb st) = Some s"
  show "released_exactly_once (issued st s)"
  proof (cases "array_to_heap_upto n index right compare_func sort_cb st")
    case (Running s')
    with obs have "s' = s" by simp
    with array_to_heap_upto_Running [OF Running assms]
    obtain evs where "trace s = trace st @ evs" "calm right evs" by blast
    then show ?thesis by (simp add: issued_append calm_def released_exactly_once_def)
  next
    case (Done res)
    from to_heap_events [OF assms array_to_heap_upto_Done [OF Done]]
    obtain rv st' evs where "res = Inr (rv, st')" "trace st' = trace st @ evs" "finished right rv evs"
      by auto
    with Done obs finished_released [of right rv evs] show ?thesis by (simp add: issued_append)
  qed
next
  fix n res
  assume "array_to_heap_upto n index right compare_func sort_cb st = Done res"
  then show "ecma_builtin_helper_array_to_heap index right compare_func sort_cb st = Some res"
    by (rule array_to_heap_upto_Done)
next
  fix res
  assume "ecma_builtin_helper_array_to_heap index right compare_func sort_cb st = Some res"
  then show "\<exists>n. array_to_heap_upto n index right compare_func sort_cb st = Done res"
    by (rule array_to_heap_upto_complete)
qed

theorem outcomes_released_once_witness:
  "(0 :: uint32) \<le> 4 \<and> unat (4 :: uint32) < length (array_p (start [3, 1, 4, 1, 5]))
   \<and> (case ecma_builtin_helper_array_to_heap 0 4 0 (failing_cb 3) (start [3, 1, 4, 1, 5]) of
           None \<Rightarrow> \<not> unat (4 :: uint32) < 2 ^ 31
         | Some (Inl e) \<Rightarrow> False
         | Some (Inr (rv, st')) \<Rightarrow> released_exactly_once (issued (start [3, 1, 4, 1, 5]) st'))
   \<and> observed (array_to_heap_upto 1 0 4 0 (failing_cb 3) (start [3, 1, 4, 1, 5]))
       = Some \<lparr>array_p = [4, 1, 4, 1, 5], runtime = 2,
               trace = [Read 0, Read 1, Read 2, Invoke 1 4 (COMPARE_NUMBER (- 3)), Release (- 3),
                        Read 2, Invoke 4 3 (COMPARE_NUMBER 1), Read 2, Write 0 4, Release 1]\<rparr>
   \<and> released_exactly_once (issued (start [3, 1, 4, 1, 5])
        \<lparr>array_p = [4, 1, 4, 1, 5], runtime = 2 :: nat,
         trace = [Read 0, Read 1, Read 2, Invoke 1 4 (COMPARE_NUMBER (- 3)), Release (- 3),
                  Read 2, Invoke 4 3 (COMPARE_NUMBER 1), Read 2, Write 0 (4 :: int), Release 1]\<rparr>)"
proof -
  let ?s = "\<lparr>array_p = [4, 1, 4, 1, 5], runtime = 2 :: nat,
         trace = [Read 0, Read 1, Read 2, Invoke 1 4 (COMPARE_NUMBER (- 3)), Release (- 3),
                  Read 2, Invoke 4 3 (COMPARE_NUMBER 1), Read 2, Write 0 (4 :: int), Release 1]\<rparr>"
  have idx: "(0 :: uint32) \<le> 4" by simp
  have len: "unat (4 :: uint32) < length (array_p (start [3, 1, 4, 1, 5]))" by (simp add: start_def)
  have obs: "observed (array_to_heap_upto 1 0 4 0 (failing_cb 3) (start [3, 1, 4, 1, 5])) = Some ?s"
    by (simp add: array_to_heap_upto_def
        sift_iteration_def compare_children_def compare_with_swap_def array_get_def array_set_def
        call_sort_cb_def ecma_free_value_def failing_cb_def start_def
        word_le_nat_alt word_less_nat_alt)
  note inst = outcomes_released_once [OF idx len, where compare_func = 0 and sort_cb = "failing_cb 3"]
  from inst [THEN conjunct1] inst [THEN conjunct2, THEN conjunct1, rule_format, OF obs] idx len obs
  show ?thesis by simp
qed

subsection \<open>C8: the heap after the first phase\<close>

text \<open>
  Claim C8 as stated, for every array, fails when \<open>right\<close> is \<open>2 ^ 32 - 2\<close>: the first phase
  (the loop of lines 118 to 126, started at \<open>right / 2 + 1\<close>) never completes, because its
  second sift-down call never leaves its loop; there is no array after the first phase.
\<close>

theorem build_diverges_counterexample:
  "length full_array = unat (4294967294 :: uint32) + 1
   \<and> sign_order difference_cb 0 (\<le>)
   \<and> build_loop 4294967294 0 difference_cb (4294967294 div 2 + 1) (start full_array) = None"
proof (intro conjI)
  show "length full_array = unat (4294967294 :: uint32) + 1" by (simp add: length_full)
  show "sign_order difference_cb 0 (\<le>)" by (rule sign_order_difference)
  show "build_loop 4294967294 0 difference_cb (4294967294 div 2 + 1) (start full_array) = None"
    using build_loop_diverges by simp
qed

text \<open>
  Claim C8, amended: for every array of length \<open>right + 1\<close> with \<open>right < 2 ^ 31\<close> and every
  comparator that never fails and whose sign follows a total order, the first phase alone
  runs to its end (no \<^verbatim>\<open>return\<close> from inside the loop), and afterwards the comparator answers
  \<open>\<ge> 0\<close> on \<^verbatim>\<open>array_p[0]\<close> against the element at every index \<open>1..right\<close>.
\<close>

theorem heap_top_greatest:
  assumes "length (array_p st) = unat right + 1" and "unat right < 2 ^ 31"
    and "sign_order sort_cb compare_func le"
  shows "\<exists>st'. build_loop right compare_func sort_cb (right div 2 + 1) st = Some (Inr (None, st'))
           \<and> (\<forall>j. 0 < j \<and> j \<le> unat right \<longrightarrow> (\<forall>rt. \<exists>n rt'.
                 sort_cb (array_p st' ! 0) (array_p st' ! j) compare_func rt = (COMPARE_NUMBER n, rt')
                 \<and> 0 \<le> n))"
proof -
  have i: "unat (right div 2 + 1) \<le> Suc (unat right)" by (simp add: unat_half_succ)
  from assms have l: "unat right < length (array_p st)" and b: "unat right < 2147483648" by simp_all
  from build_loop_array [OF i l b, of compare_func sort_cb]
  obtain rvo st' where r: "build_loop right compare_func sort_cb (right div 2 + 1) st = Some (Inr (rvo, st'))"
    and h: "\<And>le. sign_order sort_cb compare_func le \<Longrightarrow>
        heap_from le (array_p st) (unat (right div 2 + 1)) (unat right) \<Longrightarrow>
        rvo = None \<and> heap_from le (array_p st') 0 (unat right)"
    by blast
  from h [OF assms(3)] heap_from_leaves [of le "array_p st" "unat right"]
  have rvo: "rvo = None" and hp: "heap_from le (array_p st') 0 (unat right)"
    by (simp_all add: unat_half_succ)
  have "\<exists>n rt'. sort_cb (array_p st' ! 0) (array_p st' ! j) compare_func rt = (COMPARE_NUMBER n, rt')
      \<and> 0 \<le> n" if "j \<le> unat right" for j rt
  proof -
    from heap_root_greatest [OF assms(3) hp that] have "le (array_p st' ! j) (array_p st' ! 0)" .
    with sign_order_result [OF assms(3), of "array_p st' ! 0" "array_p st' ! j" rt]
    show ?thesis by metis
  qed
  with r rvo show ?thesis by blast
qed

theorem heap_top_greatest_witness:
  "length (array_p (start [3, 1, 4, 1, 5])) = unat (4 :: uint32) + 1 \<and> unat (4 :: uint32) < 2 ^ 31
   \<and> sign_order difference_cb 0 (\<le>)
   \<and> (\<exists>st'. build_loop 4 0 difference_cb (4 div 2 + 1) (start [3, 1, 4, 1, 5]) = Some (Inr (None, st'))
           \<and> (\<forall>j. 0 < j \<and> j \<le> unat (4 :: uint32) \<longrightarrow> (\<forall>rt. \<exists>n rt'.
                 difference_cb (array_p st' ! 0) (array_p st' ! j) 0 rt = (COMPARE_NUMBER n, rt')
                 \<and> 0 \<le> n)))"
  using heap_top_greatest [of "start [3, 1, 4, 1, 5]" 4 difference_cb 0 "(\<le>)"]
    sign_order_difference [of 0]
  by (simp add: start_def)

subsection \<open>C9: a single element\<close>

text \<open>
  Claim C9: with \<open>right = 0\<close> and an array of one element the sort routine returns
  \<^verbatim>\<open>ECMA_VALUE_EMPTY\<close> for every comparator; the comparator is not invoked (no invocation among
  the events of the call, and the state of the runtime is untouched), and the array holds what
  it held. The events of the call are those of the one sift-down call of the first phase, which
  reads the element and stores it back.
\<close>

theorem single_element_untouched:
  assumes "length (array_p st) = 1"
  shows "\<exists>st'. ecma_builtin_helper_array_heap_sort_helper 0 compare_func sort_cb st
             = Some (Inr (ECMA_VALUE_EMPTY, st'))
           \<and> array_p st' = array_p st \<and> runtime st' = runtime st
           \<and> issued st st' = [Read 0, Write 0 (array_p st ! 0)]
           \<and> outcomes (issued st st') = []"
proof -
  let ?st' = "st\<lparr>trace := trace st @ [Read 0, Write 0 (array_p st ! 0)]\<rparr>"
  from assms have ne: "array_p st \<noteq> []" by auto
  have "sift_loop sort_cb compare_func 0 (array_p st ! 0) 1 ECMA_VALUE_EMPTY
          (st\<lparr>trace := trace st @ [Read 0]\<rparr>)
        = Some (Inr (ECMA_VALUE_EMPTY, 1, st\<lparr>trace := trace st @ [Read 0]\<rparr>))"
    by (subst sift_loop.simps) simp
  with ne have "ecma_builtin_helper_array_to_heap 0 0 compare_func sort_cb st
           = Some (Inr (ECMA_VALUE_EMPTY, ?st'))"
    by (simp add: ecma_builtin_helper_array_to_heap_def array_get_def array_set_def)
  then have "build_loop 0 compare_func sort_cb 1 st = Some (Inr (None, ?st'))"
    by (simp add: build_loop.simps)
  then have "ecma_builtin_helper_array_heap_sort_helper 0 compare_func sort_cb st
           = Some (Inr (ECMA_VALUE_EMPTY, ?st'))"
    by (simp add: ecma_builtin_helper_array_heap_sort_helper_def sort_loop.simps)
  moreover have "issued st ?st' = [Read 0, Write 0 (array_p st ! 0)]" by (simp add: issued_def)
  ultimately show ?thesis by simp
qed

theorem single_element_untouched_witness:
  "length (array_p (start [7])) = 1
   \<and> (\<exists>st'. ecma_builtin_helper_array_heap_sort_helper 0 0 (failing_cb 0) (start [7])
             = Some (Inr (ECMA_VALUE_EMPTY, st'))
           \<and> array_p st' = array_p (start [7]) \<and> runtime st' = runtime (start [7])
           \<and> issued (start [7]) st' = [Read 0, Write 0 (array_p (start [7]) ! 0)]
           \<and> outcomes (issued (start [7]) st') = [])"
  using single_element_untouched [where st = "start [7]" and compare_func = 0
      and sort_cb = "failing_cb 0"]
  by (simp add: start_def)

subsection \<open>C10: indices stay in range\<close>

text \<open>
  Claim C10: when \<open>2 * right + 2\<close> does not overflow 32 bits, a call of the sift-down routine
  with \<open>index \<le> right\<close> on an array with at least \<open>right + 1\<close> elements, and a call of the sort
  routine on an array of \<open>right + 1\<close> elements, return without a fault: no access outside the
  array, and neither \<^verbatim>\<open>JERRY_ASSERT (child <= right)\<close> nor \<^verbatim>\<open>JERRY_ASSERT (parent <= right)\<close>
  fails, on success and on failure of the comparator alike. Every array read and write of the
  call uses an index in \<open>[0, right]\<close>.
\<close>

theorem accesses_in_range:
  assumes "2 * unat right + 2 < 2 ^ 32"
  shows "(index \<le> right \<and> unat right < length (array_p st) \<longrightarrow>
           (\<exists>rv st'. ecma_builtin_helper_array_to_heap index right compare_func sort_cb st
                = Some (Inr (rv, st'))
              \<and> (\<forall>i \<in> set (accessed (issued st st')). i \<le> right)))
       \<and> (length (array_p st) = unat right + 1 \<longrightarrow>
           (\<exists>rv st'. ecma_builtin_helper_array_heap_sort_helper right compare_func sort_cb st
                = Some (Inr (rv, st'))
              \<and> (\<forall>i \<in> set (accessed (issued st st')). i \<le> right)))"
proof (intro conjI impI)
  from assms have b: "unat right < 2147483648" by simp
  {
    assume a: "index \<le> right \<and> unat right < length (array_p st)"
    then have idx: "index \<le> right" and len: "unat right < length (array_p st)" by simp_all
    from idx len b obtain rv st' where
      r: "ecma_builtin_helper_array_to_heap index right compare_func sort_cb st = Some (Inr (rv, st'))"
      by (rule to_heap_array)
    from to_heap_events [OF idx len r]
    obtain evs where "trace st' = trace st @ evs" "finished right rv evs" by auto
    with r finished_accessed [of right rv evs]
    show "\<exists>rv st'. ecma_builtin_helper_array_to_heap index right compare_func sort_cb st
                = Some (Inr (rv, st'))
              \<and> (\<forall>i \<in> set (accessed (issued st st')). i \<le> right)"
      by (auto simp: issued_append)
  }
  {
    assume len: "length (array_p st) = unat right + 1"
    from helper_array [of st right compare_func sort_cb] len b obtain rv st' where
      r: "ecma_builtin_helper_array_heap_sort_helper right compare_func sort_cb st = Some (Inr (rv, st'))"
      by auto
    from helper_events [OF _ r] len
    obtain evs where "trace st' = trace st @ evs" "finished right rv evs" by auto
    with r finished_accessed [of right rv evs]
    show "\<exists>rv st'. ecma_builtin_helper_array_heap_sort_helper right compare_func sort_cb st
                = Some (Inr (rv, st'))
              \<and> (\<forall>i \<in> set (accessed (issued st st')). i \<le> right)"
      by (auto simp: issued_append)
  }
qed

theorem accesses_in_range_witness:
  "2 * unat (4 :: uint32) + 2 < 2 ^ 32
   \<and> ((1 :: uint32) \<le> 4 \<and> unat (4 :: uint32) < length (array_p (start [3, 1, 4, 1, 5]))
       \<and> (\<exists>rv st'. ecma_builtin_helper_array_to_heap 1 4 0 (failing_cb 1) (start [3, 1, 4, 1, 5])
                = Some (Inr (rv, st'))
              \<and> (\<forall>i \<in> set (accessed (issued (start [3, 1, 4, 1, 5]) st')). i \<le> 4)))
   \<and> (length (array_p (start [3, 1, 4, 1, 5])) = unat (4 :: uint32) + 1
       \<and> (\<exists>rv st'. ecma_builtin_helper_array_heap_sort_helper 4 0 (failing_cb 1) (start [3, 1, 4, 1, 5])
                = Some (Inr (rv, st'))
              \<and> (\<forall>i \<in> set (accessed (issued (start [3, 1, 4, 1, 5]) st')). i \<le> 4)))"
  using accesses_in_range [of 4 1 "start [3, 1, 4, 1, 5]" 0 "failing_cb 1"]
  by (simp add: start_def)

end
